theory Spec2Isabelle
  imports Complex_Main "HOL-Library.Word" "HOL-Library.Multiset"
begin

unbundle bit_operations_syntax

section \<open>Objects: the connection 5-tuple (hash.h, hash.c)\<close>

text \<open>
  \<^verbatim>\<open>typedef struct conn_t { uint32_t saddr; uint32_t daddr; uint16_t sport;
  uint16_t dport; uint8_t proto; } conn_t;\<close>
\<close>

record conn_t =
  saddr :: "32 word"
  daddr :: "32 word"
  sport :: "16 word"
  dport :: "16 word"
  proto :: "8 word"

text \<open>
  \<^verbatim>\<open>conn_should_swap\<close> (hash.c, the definition with one parameter): the C function
  returns 1 or 0, used only as a truth value; the model returns a \<^typ>\<open>bool\<close>.
\<close>

definition conn_should_swap :: "conn_t \<Rightarrow> bool" where
  "conn_should_swap conn =
     (if saddr conn > daddr conn then True
      else if saddr conn < daddr conn then False
      else sport conn > dport conn)"

text \<open>
  \<^verbatim>\<open>conncmp\<close> (hash.c). The ports are \<^verbatim>\<open>uint16_t\<close> stored into the \<^verbatim>\<open>uint32_t\<close>
  locals \<^verbatim>\<open>word1\<close>, \<^verbatim>\<open>word2\<close> (zero extension, \<^const>\<open>ucast\<close>). The result is a C
  \<^verbatim>\<open>int\<close> in {-1, 0, 1}.
\<close>

definition conncmp :: "conn_t \<Rightarrow> conn_t \<Rightarrow> int" where
  "conncmp conn1 conn2 =
     (if saddr conn1 = saddr conn2 \<and> daddr conn1 = daddr conn2 \<and>
         sport conn1 = sport conn2 \<and> dport conn1 = dport conn2 \<and>
         proto conn1 = proto conn2 then 0
      else if saddr conn1 = daddr conn2 \<and> daddr conn1 = saddr conn2 \<and>
         sport conn1 = dport conn2 \<and> dport conn1 = sport conn2 \<and>
         proto conn1 = proto conn2 then 0
      else
        let swap1 = conn_should_swap conn1;
            swap2 = conn_should_swap conn2;
            a1 = (if \<not> swap1 then saddr conn1 else daddr conn1);
            a2 = (if \<not> swap2 then saddr conn2 else daddr conn2);
            b1 = (if swap1 then saddr conn1 else daddr conn1);
            b2 = (if swap2 then saddr conn2 else daddr conn2);
            p1 = (ucast (if \<not> swap1 then sport conn1 else dport conn1) :: 32 word);
            p2 = (ucast (if \<not> swap2 then sport conn2 else dport conn2) :: 32 word);
            q1 = (ucast (if swap1 then sport conn1 else dport conn1) :: 32 word);
            q2 = (ucast (if swap2 then sport conn2 else dport conn2) :: 32 word)
        in if a1 > a2 then - 1 else if a1 < a2 then 1
           else if b1 > b2 then - 1 else if b1 < b2 then 1
           else if p1 > p2 then - 1 else if p1 < p2 then 1
           else if q1 > q2 then - 1 else if q1 < q2 then 1
           else if proto conn1 > proto conn2 then - 1
           else if proto conn1 < proto conn2 then 1
           else 0)"

text \<open>
  \<^verbatim>\<open>conn_marshall\<close> (hash.c) fills a 13-byte buffer. Each byte is
  \<^verbatim>\<open>(char)((word<<k)>>24)\<close> on a \<^verbatim>\<open>uint32_t\<close>: a left shift that drops the high
  bits, a logical right shift, and the low 8 bits kept. A byte of the buffer is an
  \<^typ>\<open>8 word\<close> (its bit pattern; how a plain \<^verbatim>\<open>char\<close> is read back as a number is
  decided where it is read).
\<close>

definition word_bytes :: "32 word \<Rightarrow> 8 word list" where
  "word_bytes w =
     [ucast (drop_bit 24 (push_bit 0 w)), ucast (drop_bit 24 (push_bit 8 w)),
      ucast (drop_bit 24 (push_bit 16 w)), ucast (drop_bit 24 (push_bit 24 w))]"

definition conn_marshall :: "conn_t \<Rightarrow> 8 word list" where
  "conn_marshall conn =
     (let swap = conn_should_swap conn;
          w1 = (if \<not> swap then saddr conn else daddr conn);
          w2 = (if swap then saddr conn else daddr conn);
          sport32 = (ucast (sport conn) :: 32 word);
          dport32 = (ucast (dport conn) :: 32 word);
          w3 = (if \<not> swap then (push_bit 16 sport32) OR dport32
                else (push_bit 16 dport32) OR sport32)
      in word_bytes w1 @ word_bytes w2 @ word_bytes w3 @ [proto conn])"

section \<open>Hash functions (hash.c)\<close>

text \<open>
  The marshalled key is a \<^verbatim>\<open>char *\<close> buffer read through \<^verbatim>\<open>*key++\<close>. Whether plain
  \<^verbatim>\<open>char\<close> is signed is implementation-defined in C (signed with gcc on x86 Linux,
  unsigned on ARM Linux), and both hash functions convert the \<^verbatim>\<open>char\<close> to a wider
  integer. The flag \<open>schar\<close> says that plain \<^verbatim>\<open>char\<close> is signed: the byte is then
  sign-extended, otherwise zero-extended.
\<close>

definition char_to_u32 :: "bool \<Rightarrow> 8 word \<Rightarrow> 32 word" where
  "char_to_u32 schar c = (if schar then scast c else ucast c)"

definition char_to_int :: "bool \<Rightarrow> 8 word \<Rightarrow> int" where
  "char_to_int schar c = (if schar then sint c else uint c)"

text \<open>
  \<^verbatim>\<open>hf_lcg_generic (state, key, len)\<close>. The pair (\<^verbatim>\<open>key\<close>, \<^verbatim>\<open>len\<close>) is the list of the
  \<^verbatim>\<open>len\<close> bytes read; \<^verbatim>\<open>i\<close> and \<^verbatim>\<open>len\<close> are \<^verbatim>\<open>uint32_t\<close>, and since \<^verbatim>\<open>i < len\<close> inside
  the loop neither \<^verbatim>\<open>i+1\<close> nor \<^verbatim>\<open>len-1\<close> wraps, so they are natural numbers here.
  \<^verbatim>\<open>tmp\<close> and \<^verbatim>\<open>hashvalue\<close> are \<^verbatim>\<open>uint32_t\<close> and wrap.
\<close>

definition lcg_A :: "32 word" where "lcg_A = 1664525"
definition lcg_B :: "32 word" where "lcg_B = 1013904223"

fun hf_lcg_loop :: "bool \<Rightarrow> nat \<Rightarrow> nat \<Rightarrow> 8 word list \<Rightarrow> 32 word \<Rightarrow> 32 word \<Rightarrow> 32 word" where
  "hf_lcg_loop schar len i [] hashvalue tmp = hashvalue"
| "hf_lcg_loop schar len i (c # key) hashvalue tmp =
     (let tmp1 = push_bit 8 tmp + char_to_u32 schar c in
      if (i + 1) mod 4 = 0 \<or> i = len - 1 then
        (let tmp2 = tmp1 * lcg_A + lcg_B in
         hf_lcg_loop schar len (i + 1) key (hashvalue XOR tmp2) 0)
      else hf_lcg_loop schar len (i + 1) key hashvalue tmp1)"

definition hf_lcg_generic :: "bool \<Rightarrow> 8 word list \<Rightarrow> 32 word" where
  "hf_lcg_generic schar key = hf_lcg_loop schar (length key) 0 key 0 0"

text \<open>
  \<^verbatim>\<open>hf_zobrist_state_t\<close>: \<^verbatim>\<open>uint32_t *zobrist[256]\<close> is an array of 256 rows, each row
  allocated with \<^verbatim>\<open>tablelen\<close> words by \<^verbatim>\<open>hf_zobrist_init\<close>.
\<close>

datatype error = OutOfBounds | DanglingItem

record hf_zobrist_state_t =
  tablelen :: "32 word"
  tablemask :: "32 word"
  zobrist :: "32 word list list"

text \<open>
  \<^verbatim>\<open>hf_zobrist_generic\<close>: \<^verbatim>\<open>hashvalue ^= state->zobrist[(int)(*key++)][i++&state->tablemask]\<close>.
  The row index is the plain \<^verbatim>\<open>char\<close> converted to \<^verbatim>\<open>int\<close>; a read outside the 256 rows
  or outside the row is the error \<^const>\<open>OutOfBounds\<close> (undefined behaviour in C).
\<close>

fun hf_zobrist_loop ::
  "bool \<Rightarrow> hf_zobrist_state_t \<Rightarrow> nat \<Rightarrow> 8 word list \<Rightarrow> 32 word \<Rightarrow> error + 32 word" where
  "hf_zobrist_loop schar st i [] hashvalue = Inr hashvalue"
| "hf_zobrist_loop schar st i (c # key) hashvalue =
     (let r = char_to_int schar c;
          j = unat ((of_nat i :: 32 word) AND tablemask st)
      in if r < 0 \<or> int (length (zobrist st)) \<le> r then Inl OutOfBounds
         else if length (zobrist st ! nat r) \<le> j then Inl OutOfBounds
         else hf_zobrist_loop schar st (i + 1) key (hashvalue XOR (zobrist st ! nat r ! j)))"

definition hf_zobrist_generic :: "bool \<Rightarrow> hf_zobrist_state_t \<Rightarrow> 8 word list \<Rightarrow> error + 32 word" where
  "hf_zobrist_generic schar st key = hf_zobrist_loop schar st 0 key 0"

text \<open>
  \<^verbatim>\<open>hf_zobrist_init\<close>: the table length is rounded by the same halving loop as the
  bucket count of \<^verbatim>\<open>ht_raw_init\<close>; the values come from \<^verbatim>\<open>random()\<close>, here the
  parameter \<open>rnd\<close> (row, column).
\<close>

function pow2_loop :: "32 word \<Rightarrow> 32 word \<Rightarrow> 32 word" where
  "pow2_loop nb n = (if nb > n then pow2_loop (drop_bit 1 nb) n else nb)"
  by pat_completeness auto
termination
proof (relation "measure (\<lambda>(nb, n). unat nb)")
  show "wf (measure (\<lambda>(nb :: 32 word, n :: 32 word). unat nb))" by simp
next
  fix nb n :: "32 word"
  assume "n < nb"
  then have "nb \<noteq> 0" by auto
  then have "0 < unat nb" by (simp add: unat_gt_0)
  then have "unat nb div 2 < unat nb" by simp
  then show "((drop_bit 1 nb, n), (nb, n)) \<in> measure (\<lambda>(nb, n). unat nb)"
    by (simp add: drop_bit_eq_div unat_div)
qed

declare pow2_loop.simps [simp del]

definition hf_zobrist_init :: "(nat \<Rightarrow> nat \<Rightarrow> 32 word) \<Rightarrow> 32 word \<Rightarrow> hf_zobrist_state_t" where
  "hf_zobrist_init rnd n =
     (let tl = pow2_loop 0x40000000 n in
      \<lparr>tablelen = tl, tablemask = tl - 1,
       zobrist = map (\<lambda>i. map (\<lambda>j. rnd i j) [0..<unat tl]) [0..<256]\<rparr>)"

section \<open>The object type registry (hash.h)\<close>

text \<open>
  \<^verbatim>\<open>hash_object_t\<close>: one descriptor per object type, \<^verbatim>\<open>{type, len, cmp, cpy, marshall}\<close>.
  The table is type-erased in C (\<^verbatim>\<open>void *\<close> objects, the descriptor found as
  \<^verbatim>\<open>ho[ht->key]\<close>); here the table is polymorphic in the key and yield types and holds the
  descriptors themselves. Objects are values, so \<^verbatim>\<open>cpy\<close> is the identity and is left out.
\<close>

record 'a hash_object_t =
  len :: nat
  cmp :: "'a \<Rightarrow> 'a \<Rightarrow> int"
  marshall :: "'a \<Rightarrow> 8 word list"

definition uint32cmp :: "32 word \<Rightarrow> 32 word \<Rightarrow> int" where
  "uint32cmp u1 u2 = (if u1 > u2 then - 1 else if u1 < u2 then 1 else 0)"

text \<open>
  \<^verbatim>\<open>uint32_marshall\<close> copies the four bytes of the object as they lie in memory; \<open>be\<close>
  says that the machine is big-endian.
\<close>

definition uint32_marshall :: "bool \<Rightarrow> 32 word \<Rightarrow> 8 word list" where
  "uint32_marshall be u = (if be then word_bytes u else rev (word_bytes u))"

text \<open>
  \<^verbatim>\<open>double\<close> objects are IEEE 754 binary64 values, modelled by their 64-bit pattern
  (sign, 11 exponent bits, 52 fraction bits). A pattern is a NaN when the exponent bits
  are all ones and the fraction is not zero. The patterns that are not NaN are ordered as
  the numbers they stand for by their rank: the magnitude bits read as an integer,
  negated when the sign bit is set, so that \<open>0.0\<close> and \<open>-0.0\<close> have the same rank.
  \<^verbatim>\<open>d1 < d2\<close> in C is false when either operand is a NaN.
\<close>

definition double_isnan :: "64 word \<Rightarrow> bool" where
  "double_isnan d =
     (d AND 0x7FF0000000000000 = 0x7FF0000000000000 \<and> d AND 0x000FFFFFFFFFFFFF \<noteq> 0)"

definition double_rank :: "64 word \<Rightarrow> int" where
  "double_rank d =
     (if bit d 63 then - uint (d AND 0x7FFFFFFFFFFFFFFF) else uint (d AND 0x7FFFFFFFFFFFFFFF))"

definition double_less :: "64 word \<Rightarrow> 64 word \<Rightarrow> bool" where
  "double_less d1 d2 = (\<not> double_isnan d1 \<and> \<not> double_isnan d2 \<and> double_rank d1 < double_rank d2)"

text \<open>
  \<^verbatim>\<open>doublecmp\<close>: \<^verbatim>\<open>if ( d1 > d2 ) return -1; else if ( d1 < d2 ) return 1; return 0;\<close>
  and \<^verbatim>\<open>double_marshall\<close>, which copies the \<^verbatim>\<open>sizeof(double)\<close> = 8 bytes of the object
  as they lie in memory (\<open>be\<close>: the machine is big-endian).
\<close>

definition doublecmp :: "64 word \<Rightarrow> 64 word \<Rightarrow> int" where
  "doublecmp d1 d2 = (if double_less d2 d1 then - 1 else if double_less d1 d2 then 1 else 0)"

definition double_bytes :: "64 word \<Rightarrow> 8 word list" where
  "double_bytes d =
     [ucast (drop_bit 56 d), ucast (drop_bit 48 d), ucast (drop_bit 40 d), ucast (drop_bit 32 d),
      ucast (drop_bit 24 d), ucast (drop_bit 16 d), ucast (drop_bit 8 d), ucast d]"

definition double_marshall :: "bool \<Rightarrow> 64 word \<Rightarrow> 8 word list" where
  "double_marshall be d = (if be then double_bytes d else rev (double_bytes d))"

definition ho_double :: "bool \<Rightarrow> (64 word) hash_object_t" where
  "ho_double be = \<lparr>len = 8, cmp = doublecmp, marshall = double_marshall be\<rparr>"

text \<open>
  The registry has two more entries that are not modelled: the one-sided connection, whose
  functions \<^verbatim>\<open>osconncmp\<close>, \<^verbatim>\<open>osconn_marshall\<close> are declared in hash.h and not defined
  in hash.c, and the aggregate statistics \<^verbatim>\<open>conninfo_t\<close>, whose comparator
  \<^verbatim>\<open>conninfocmp\<close> prints a message and calls \<^verbatim>\<open>abort()\<close>. A comparator of the model
  always returns: every statement below about a table is about a table whose key and yield
  comparators return.
\<close>

definition ho_connection :: "conn_t hash_object_t" where
  "ho_connection = \<lparr>len = 13, cmp = conncmp, marshall = conn_marshall\<rparr>"

definition ho_uint32 :: "bool \<Rightarrow> (32 word) hash_object_t" where
  "ho_uint32 be = \<lparr>len = 4, cmp = uint32cmp, marshall = uint32_marshall be\<rparr>"

text \<open>
  \<^verbatim>\<open>hf_lcg (ht, key)\<close>: marshal the key with the descriptor of the table's key type and
  hash the first \<^verbatim>\<open>len\<close> bytes of the buffer.
\<close>

definition hf_lcg :: "bool \<Rightarrow> 'k hash_object_t \<Rightarrow> 'k \<Rightarrow> 32 word" where
  "hf_lcg schar ho k = hf_lcg_generic schar (take (len ho) (marshall ho k))"

section \<open>The table engine (hash.c)\<close>

text \<open>
  \<^verbatim>\<open>hash_table_item_t\<close> is a node of a doubly linked chain with the fields \<^verbatim>\<open>key\<close>,
  \<^verbatim>\<open>yield\<close>, \<^verbatim>\<open>prev\<close>, \<^verbatim>\<open>h\<close>, \<^verbatim>\<open>next\<close>. A chain is modelled by the list of its
  nodes from the head (\<^verbatim>\<open>ht->bucket[h]\<close>) to the tail: \<^verbatim>\<open>next\<close> of a node is the following
  list element, \<^verbatim>\<open>prev\<close> the preceding one, \<^verbatim>\<open>NULL\<close> is the end of the list. A pointer to
  a node is its position: the bucket index and the index in the chain.
\<close>

record ('k, 'y) hash_table_item_t =
  key :: 'k
  yield :: 'y
  h :: "32 word"

type_synonym item_ptr = "nat \<times> nat"

text \<open>
  \<^verbatim>\<open>hash_table_t\<close>. \<open>ho_key\<close> and \<open>ho_yield\<close> stand for \<^verbatim>\<open>ho[ht->key]\<close> and
  \<^verbatim>\<open>ho[ht->yield]\<close>; \<open>hf\<close> is the function pointer \<^verbatim>\<open>ht->hf->hash\<close>, which receives the
  table only to find the key descriptor. The constant fields \<^verbatim>\<open>storage\<close> and
  \<^verbatim>\<open>collision\<close> are left out. \<^verbatim>\<open>max_bucket_occupancy_ratio\<close> is a C \<^verbatim>\<open>float\<close>; the
  model takes it as an exact rational number.
\<close>

record ('k, 'y) hash_table_t =
  ho_key :: "'k hash_object_t"
  ho_yield :: "'y hash_object_t"
  copy_keys :: bool
  copy_yields :: bool
  hf :: "'k hash_object_t \<Rightarrow> 'k \<Rightarrow> 32 word"
  bucket :: "('k, 'y) hash_table_item_t list list"
  nbuckets :: "32 word"
  entries :: "32 word"
  mask :: "32 word"
  max_bucket_occupancy_ratio :: rat

text \<open>
  \<^verbatim>\<open>ht_raw_init\<close>. The bucket count (\<open>init_nb\<close>) is
  \<^verbatim>\<open>ht->nbuckets = 0x40000000; while ( ht->nbuckets > nbuckets ) ht->nbuckets >>= 1;
  if ( ht->nbuckets < 16 ) ht->nbuckets = 16;\<close>
  Allocation is taken to succeed (a failure of the first \<^verbatim>\<open>malloc\<close> ends the process).
\<close>

definition init_nb :: "32 word \<Rightarrow> 32 word" where
  "init_nb n = (let nb0 = pow2_loop 0x40000000 n in if nb0 < 16 then 16 else nb0)"

definition ht_raw_init ::
  "'k hash_object_t \<Rightarrow> 'y hash_object_t \<Rightarrow> bool \<Rightarrow> bool \<Rightarrow> ('k hash_object_t \<Rightarrow> 'k \<Rightarrow> 32 word) \<Rightarrow>
   32 word \<Rightarrow> rat \<Rightarrow> ('k, 'y) hash_table_t" where
  "ht_raw_init ko yo ck cy hfn n ratio =
     (let nb = init_nb n
      in \<lparr>ho_key = ko, ho_yield = yo, copy_keys = ck, copy_yields = cy, hf = hfn,
          bucket = replicate (unat nb) [], nbuckets = nb, entries = 0, mask = nb - 1,
          max_bucket_occupancy_ratio = ratio\<rparr>)"

text \<open>
  Reading \<^verbatim>\<open>ht->bucket[i]\<close>: the bucket array has as many slots as the list has
  elements; an index outside it is the error \<^const>\<open>OutOfBounds\<close>.
\<close>

definition bucket_at :: "('k, 'y) hash_table_t \<Rightarrow> int \<Rightarrow> error + ('k, 'y) hash_table_item_t list" where
  "bucket_at ht i =
     (if 0 \<le> i \<and> i < int (length (bucket ht)) then Inr (bucket ht ! nat i) else Inl OutOfBounds)"

text \<open>The two tests of the lookup, removal and iteration loops; \<^verbatim>\<open>NULL\<close> is \<^const>\<open>None\<close>.\<close>

definition key_matches :: "('k, 'y) hash_table_t \<Rightarrow> 'k option \<Rightarrow> ('k, 'y) hash_table_item_t \<Rightarrow> bool" where
  "key_matches ht ko item =
     (case ko of None \<Rightarrow> True | Some k \<Rightarrow> cmp (ho_key ht) k (key item) = 0)"

definition yield_matches :: "('k, 'y) hash_table_t \<Rightarrow> 'y option \<Rightarrow> ('k, 'y) hash_table_item_t \<Rightarrow> bool" where
  "yield_matches ht yo item =
     (case yo of None \<Rightarrow> True | Some y \<Rightarrow> cmp (ho_yield ht) y (yield item) = 0)"

text \<open>
  The bucket range \<^verbatim>\<open>[h1, h2)\<close> of \<^verbatim>\<open>ht_raw_lookup\<close> and \<^verbatim>\<open>ht_raw_remove\<close>. The loop
  \<^verbatim>\<open>for (h = h1; h < h2; ++h)\<close> on \<^verbatim>\<open>uint32_t\<close> visits the indices from \<^verbatim>\<open>h1\<close> up to
  \<^verbatim>\<open>h2 - 1\<close> (none when \<^verbatim>\<open>h1 + 1\<close> has wrapped to 0).
\<close>

definition bucket_range :: "('k, 'y) hash_table_t \<Rightarrow> 'k option \<Rightarrow> nat list" where
  "bucket_range ht ko =
     (case ko of
        None \<Rightarrow> [unat (0 :: 32 word)..<unat (nbuckets ht)]
      | Some k \<Rightarrow> (let h1 = hf ht (ho_key ht) k AND mask ht in [unat h1..<unat (h1 + 1)]))"

text \<open>\<^verbatim>\<open>ht_raw_lookup\<close>: the first matching node, buckets in order, each chain head to tail.\<close>

fun lookup_chain ::
  "('k, 'y) hash_table_t \<Rightarrow> 'k option \<Rightarrow> 'y option \<Rightarrow> nat \<Rightarrow> ('k, 'y) hash_table_item_t list \<Rightarrow> nat option" where
  "lookup_chain ht ko yo i [] = None"
| "lookup_chain ht ko yo i (item # rest) =
     (if key_matches ht ko item \<and> yield_matches ht yo item then Some i
      else lookup_chain ht ko yo (i + 1) rest)"

fun lookup_buckets ::
  "('k, 'y) hash_table_t \<Rightarrow> 'k option \<Rightarrow> 'y option \<Rightarrow> nat list \<Rightarrow> error + item_ptr option" where
  "lookup_buckets ht ko yo [] = Inr None"
| "lookup_buckets ht ko yo (b # bs) =
     (case bucket_at ht (int b) of
        Inl e \<Rightarrow> Inl e
      | Inr chain \<Rightarrow>
          (case lookup_chain ht ko yo 0 chain of
             Some i \<Rightarrow> Inr (Some (b, i))
           | None \<Rightarrow> lookup_buckets ht ko yo bs))"

definition ht_raw_lookup ::
  "('k, 'y) hash_table_t \<Rightarrow> 'k option \<Rightarrow> 'y option \<Rightarrow> error + item_ptr option" where
  "ht_raw_lookup ht ko yo = lookup_buckets ht ko yo (bucket_range ht ko)"

definition ht_raw_exists :: "('k, 'y) hash_table_t \<Rightarrow> 'k option \<Rightarrow> 'y option \<Rightarrow> error + bool" where
  "ht_raw_exists ht ko yo =
     (case ht_raw_lookup ht ko yo of Inl e \<Rightarrow> Inl e | Inr None \<Rightarrow> Inr False | Inr (Some p) \<Rightarrow> Inr True)"

text \<open>
  \<^verbatim>\<open>ht_raw_rebuild (ht, nbuckets)\<close>. The new frame is made by
  \<^verbatim>\<open>ht_raw_init(ht->key, ..., ht->hf, ht->nbuckets, ht->max_bucket_occupancy_ratio)\<close>: the
  parameter \<^verbatim>\<open>nbuckets\<close> is only printed. Every node of every old chain, head to tail, is
  pushed on the front of its new chain; the old frame is overwritten with the new one.
\<close>

fun rebuild_chain ::
  "('k, 'y) hash_table_t \<Rightarrow> ('k, 'y) hash_table_item_t list \<Rightarrow> error + ('k, 'y) hash_table_t" where
  "rebuild_chain newht [] = Inr newht"
| "rebuild_chain newht (item # rest) =
     (let hv = hf newht (ho_key newht) (key item) AND mask newht in
      case bucket_at newht (uint hv) of
        Inl e \<Rightarrow> Inl e
      | Inr chain \<Rightarrow>
          rebuild_chain
            (newht\<lparr>bucket := (bucket newht)[unat hv := item\<lparr>h := hv\<rparr> # chain],
                   entries := entries newht + 1\<rparr>) rest)"

fun rebuild_buckets ::
  "('k, 'y) hash_table_t \<Rightarrow> ('k, 'y) hash_table_t \<Rightarrow> nat list \<Rightarrow> error + ('k, 'y) hash_table_t" where
  "rebuild_buckets ht newht [] = Inr newht"
| "rebuild_buckets ht newht (i # is) =
     (case bucket_at ht (int i) of
        Inl e \<Rightarrow> Inl e
      | Inr chain \<Rightarrow>
          (case rebuild_chain newht chain of
             Inl e \<Rightarrow> Inl e
           | Inr newht1 \<Rightarrow> rebuild_buckets ht newht1 is))"

definition ht_raw_rebuild :: "('k, 'y) hash_table_t \<Rightarrow> 32 word \<Rightarrow> error + ('k, 'y) hash_table_t" where
  "ht_raw_rebuild ht n =
     (let newht = ht_raw_init (ho_key ht) (ho_yield ht) (copy_keys ht) (copy_yields ht) (hf ht)
                    (nbuckets ht) (max_bucket_occupancy_ratio ht)
      in rebuild_buckets ht newht [0..<unat (nbuckets ht)])"

text \<open>
  \<^verbatim>\<open>ht_raw_insert\<close>. The growth loop
  \<^verbatim>\<open>while (ht->entries >= (ht->max_bucket_occupancy_ratio * ht->nbuckets)) ht_raw_rebuild(ht, ht->nbuckets*2);\<close>
  has no bound, so it is a partial function: \<^const>\<open>None\<close> is "does not return". The
  comparison is made in floating point in C and on exact rationals here. The key and the
  yield are objects (never \<^verbatim>\<open>NULL\<close>); whether the item holds a copy or the caller's
  object makes no difference to a value. \<^verbatim>\<open>h\<close> is an \<^verbatim>\<open>int\<close> in this function, so the
  bucket index is read as a signed number.
\<close>

definition must_grow :: "('k, 'y) hash_table_t \<Rightarrow> bool" where
  "must_grow ht =
     (max_bucket_occupancy_ratio ht * of_nat (unat (nbuckets ht)) \<le> of_nat (unat (entries ht)))"

partial_function (option) insert_grow ::
  "('k, 'y) hash_table_t \<Rightarrow> (error + ('k, 'y) hash_table_t) option" where
  "insert_grow ht =
     (if must_grow ht then
        (case ht_raw_rebuild ht (nbuckets ht * 2) of
           Inl e \<Rightarrow> Some (Inl e)
         | Inr ht1 \<Rightarrow> insert_grow ht1)
      else Some (Inr ht))"

declare insert_grow.simps [code]

definition ht_raw_insert ::
  "('k, 'y) hash_table_t \<Rightarrow> 'k \<Rightarrow> 'y \<Rightarrow> (error + int \<times> ('k, 'y) hash_table_t) option" where
  "ht_raw_insert ht k y =
     (case ht_raw_exists ht (Some k) (Some y) of
        Inl e \<Rightarrow> Some (Inl e)
      | Inr True \<Rightarrow> Some (Inr (- 1, ht))
      | Inr False \<Rightarrow>
          (case insert_grow ht of
             None \<Rightarrow> None
           | Some (Inl e) \<Rightarrow> Some (Inl e)
           | Some (Inr ht1) \<Rightarrow>
               (let hv = hf ht1 (ho_key ht1) k AND mask ht1 in
                case bucket_at ht1 (sint hv) of
                  Inl e \<Rightarrow> Some (Inl e)
                | Inr chain \<Rightarrow>
                    Some (Inr (0,
                      ht1\<lparr>bucket := (bucket ht1)[nat (sint hv) := \<lparr>key = k, yield = y, h = hv\<rparr> # chain],
                          entries := entries ht1 + 1\<rparr>)))))"

text \<open>
  \<^verbatim>\<open>ht_raw_remove\<close>: every bucket of the range, every node of its chain from the head; a
  matching node is unlinked, \<^verbatim>\<open>--ht->entries\<close> and \<^verbatim>\<open>++cnt\<close> (both \<^verbatim>\<open>uint32_t\<close>).
  \<open>kept\<close> is the part of the chain before the cursor that stays linked.
\<close>

fun remove_chain ::
  "('k, 'y) hash_table_t \<Rightarrow> 'k option \<Rightarrow> 'y option \<Rightarrow> ('k, 'y) hash_table_item_t list \<Rightarrow>
   ('k, 'y) hash_table_item_t list \<Rightarrow> 32 word \<Rightarrow> 32 word \<Rightarrow>
   ('k, 'y) hash_table_item_t list \<times> 32 word \<times> 32 word" where
  "remove_chain ht ko yo [] kept ent cnt = (kept, ent, cnt)"
| "remove_chain ht ko yo (item # rest) kept ent cnt =
     (if key_matches ht ko item \<and> yield_matches ht yo item
      then remove_chain ht ko yo rest kept (ent - 1) (cnt + 1)
      else remove_chain ht ko yo rest (kept @ [item]) ent cnt)"

fun remove_buckets ::
  "('k, 'y) hash_table_t \<Rightarrow> 'k option \<Rightarrow> 'y option \<Rightarrow> nat list \<Rightarrow> 32 word \<Rightarrow>
   error + 32 word \<times> ('k, 'y) hash_table_t" where
  "remove_buckets ht ko yo [] cnt = Inr (cnt, ht)"
| "remove_buckets ht ko yo (b # bs) cnt =
     (case bucket_at ht (int b) of
        Inl e \<Rightarrow> Inl e
      | Inr chain \<Rightarrow>
          (case remove_chain ht ko yo chain [] (entries ht) cnt of
             (kept, ent, cnt1) \<Rightarrow>
               remove_buckets (ht\<lparr>bucket := (bucket ht)[b := kept], entries := ent\<rparr>) ko yo bs cnt1))"

definition ht_raw_remove ::
  "('k, 'y) hash_table_t \<Rightarrow> 'k option \<Rightarrow> 'y option \<Rightarrow> error + 32 word \<times> ('k, 'y) hash_table_t" where
  "ht_raw_remove ht ko yo = remove_buckets ht ko yo (bucket_range ht ko) 0"

definition ht_raw_reset :: "('k, 'y) hash_table_t \<Rightarrow> error + ('k, 'y) hash_table_t" where
  "ht_raw_reset ht = (case ht_raw_remove ht None None of Inl e \<Rightarrow> Inl e | Inr (cnt, ht1) \<Rightarrow> Inr ht1)"

text \<open>
  \<^verbatim>\<open>ht_raw_get_next (ht, item, key)\<close>. The scan that ends the function: for a wildcard
  key the first node of the first non-empty bucket from \<^verbatim>\<open>h\<close> on, for a key the first
  node of bucket \<^verbatim>\<open>h\<close> with an equal key.
\<close>

fun first_nonempty :: "('k, 'y) hash_table_t \<Rightarrow> nat list \<Rightarrow> error + item_ptr option" where
  "first_nonempty ht [] = Inr None"
| "first_nonempty ht (b # bs) =
     (case bucket_at ht (int b) of
        Inl e \<Rightarrow> Inl e
      | Inr [] \<Rightarrow> first_nonempty ht bs
      | Inr (item # rest) \<Rightarrow> Inr (Some (b, 0)))"

definition get_next_scan :: "('k, 'y) hash_table_t \<Rightarrow> 'k option \<Rightarrow> 32 word \<Rightarrow> error + item_ptr option" where
  "get_next_scan ht ko hv =
     (case ko of
        None \<Rightarrow> first_nonempty ht [unat hv..<unat (nbuckets ht)]
      | Some k \<Rightarrow>
          (case bucket_at ht (uint hv) of
             Inl e \<Rightarrow> Inl e
           | Inr chain \<Rightarrow>
               (case lookup_chain ht (Some k) None 0 chain of
                  None \<Rightarrow> Inr None
                | Some i \<Rightarrow> Inr (Some (unat hv, i)))))"

text \<open>
  With a previous item: its successor in the chain decides when there is one; otherwise
  \<^verbatim>\<open>h = item->h; if ( ++h > ht->nbuckets ) return NULL;\<close> and the scan goes on from
  \<^verbatim>\<open>h\<close>. A pointer that denotes no node of the table is the error \<^const>\<open>DanglingItem\<close>.
\<close>

definition ht_raw_get_next ::
  "('k, 'y) hash_table_t \<Rightarrow> item_ptr option \<Rightarrow> 'k option \<Rightarrow> error + item_ptr option" where
  "ht_raw_get_next ht item ko =
     (case item of
        None \<Rightarrow>
          get_next_scan ht ko (case ko of None \<Rightarrow> 0 | Some k \<Rightarrow> hf ht (ho_key ht) k AND mask ht)
      | Some (b, i) \<Rightarrow>
          (if b < length (bucket ht) \<and> i < length (bucket ht ! b) then
             (let chain = bucket ht ! b in
              if i + 1 < length chain then
                (if key_matches ht ko (chain ! (i + 1)) then Inr (Some (b, i + 1)) else Inr None)
              else
                (let hv = h (chain ! i) + 1 in
                 if hv > nbuckets ht then Inr None else get_next_scan ht ko hv))
           else Inl DanglingItem))"

section \<open>Reachable tables and their invariant\<close>

text \<open>
  The tables a caller can have: the result of \<^verbatim>\<open>ht_raw_init\<close>, and the result of any
  operation that returns on such a table.
\<close>

inductive reachable :: "('k, 'y) hash_table_t \<Rightarrow> bool" where
  r_init: "reachable (ht_raw_init ko yo ck cy hfn n ratio)"
| r_insert: "reachable ht \<Longrightarrow> ht_raw_insert ht k y = Some (Inr (rc, ht1)) \<Longrightarrow> reachable ht1"
| r_remove: "reachable ht \<Longrightarrow> ht_raw_remove ht ko yo = Inr (cnt, ht1) \<Longrightarrow> reachable ht1"
| r_reset: "reachable ht \<Longrightarrow> ht_raw_reset ht = Inr ht1 \<Longrightarrow> reachable ht1"
| r_rebuild: "reachable ht \<Longrightarrow> ht_raw_rebuild ht n = Inr ht1 \<Longrightarrow> reachable ht1"

text \<open>All nodes of the table, bucket by bucket, each chain from its head.\<close>

definition items :: "('k, 'y) hash_table_t \<Rightarrow> ('k, 'y) hash_table_item_t list" where
  "items ht = concat (bucket ht)"

text \<open>
  The invariant of the frame: the bucket count is a power of two between 16 and
  \<open>2^30\<close>, the mask is the count minus one, the array has that many slots, every node
  lies in the chain of the bucket its key hashes to and caches that index, and
  \<^verbatim>\<open>entries\<close> counts the nodes (as a \<^verbatim>\<open>uint32_t\<close>).
\<close>

definition chains_ok :: "('k, 'y) hash_table_t \<Rightarrow> bool" where
  "chains_ok ht =
     (\<forall>b \<in> {0..<length (bucket ht)}. \<forall>item \<in> set (bucket ht ! b).
        h item = of_nat b \<and> hf ht (ho_key ht) (key item) AND mask ht = of_nat b)"

definition ht_wf :: "('k, 'y) hash_table_t \<Rightarrow> bool" where
  "ht_wf ht =
     ((\<exists>k \<in> {4..<31}. nbuckets ht = 2 ^ k) \<and> mask ht = nbuckets ht - 1 \<and>
      length (bucket ht) = unat (nbuckets ht) \<and> chains_ok ht \<and>
      entries ht = of_nat (length (items ht)))"

text \<open>
  What lookup by bucket needs from the registry entry and the hash function the table is
  given: keys that compare equal hash alike.
\<close>

definition hash_respects_cmp :: "('k, 'y) hash_table_t \<Rightarrow> bool" where
  "hash_respects_cmp ht =
     (\<forall>a b. cmp (ho_key ht) a b = 0 \<longrightarrow> hf ht (ho_key ht) a = hf ht (ho_key ht) b)"

text \<open>
  The part of the frame that no operation changes after \<^verbatim>\<open>ht_raw_init\<close> except a
  rebuild: descriptors, flags, hash function, bucket count, mask and ratio.
\<close>

definition same_frame :: "('k, 'y) hash_table_t \<Rightarrow> ('k, 'y) hash_table_t \<Rightarrow> bool" where
  "same_frame ht1 ht =
     (ho_key ht1 = ho_key ht \<and> ho_yield ht1 = ho_yield ht \<and> copy_keys ht1 = copy_keys ht \<and>
      copy_yields ht1 = copy_yields ht \<and> hf ht1 = hf ht \<and> nbuckets ht1 = nbuckets ht \<and>
      mask ht1 = mask ht \<and> max_bucket_occupancy_ratio ht1 = max_bucket_occupancy_ratio ht)"

text \<open>
  Linking a node at the head of the chain of bucket \<^verbatim>\<open>h\<close> and counting it, as
  \<^verbatim>\<open>ht_raw_insert\<close> and \<^verbatim>\<open>ht_raw_rebuild\<close> both do; and a node with its cached index
  recomputed for a table.
\<close>

definition push_item :: "('k, 'y) hash_table_t \<Rightarrow> ('k, 'y) hash_table_item_t \<Rightarrow> ('k, 'y) hash_table_t" where
  "push_item ht item =
     ht\<lparr>bucket := (bucket ht)[unat (h item) := item # bucket ht ! unat (h item)],
        entries := entries ht + 1\<rparr>"

definition rehash :: "('k, 'y) hash_table_t \<Rightarrow> ('k, 'y) hash_table_item_t \<Rightarrow> ('k, 'y) hash_table_item_t" where
  "rehash ht item = item\<lparr>h := hf ht (ho_key ht) (key item) AND mask ht\<rparr>"

text \<open>An item matches a query when its key and its yield do.\<close>

definition item_matches ::
  "('k, 'y) hash_table_t \<Rightarrow> 'k option \<Rightarrow> 'y option \<Rightarrow> ('k, 'y) hash_table_item_t \<Rightarrow> bool" where
  "item_matches ht ko yo item = (key_matches ht ko item \<and> yield_matches ht yo item)"



text \<open>The node a pointer denotes.\<close>

definition item_at :: "('k, 'y) hash_table_t \<Rightarrow> item_ptr \<Rightarrow> ('k, 'y) hash_table_item_t" where
  "item_at ht p = bucket ht ! fst p ! snd p"

section \<open>The statements of the specification\<close>

text \<open>
  The largest power of two that is at most \<open>n\<close> (for \<open>n \<ge> 1\<close>), and the bucket count
  the specification gives for a request: that power, floored at 16.
\<close>

fun largest_pow2_le :: "nat \<Rightarrow> nat" where
  "largest_pow2_le n = (if n < 2 then 1 else 2 * largest_pow2_le (n div 2))"

definition spec_nbuckets :: "nat \<Rightarrow> nat" where
  "spec_nbuckets n = max 16 (largest_pow2_le n)"

text \<open>
  The LCG hash in the words of the specification: the bytes in groups of four (the last
  group may be shorter), each group read as a big-endian number, one LCG step on each, the
  results combined by exclusive or.
\<close>

fun groups4 :: "'a list \<Rightarrow> 'a list list" where
  "groups4 (a # b # c # d # rest) = [a, b, c, d] # groups4 rest"
| "groups4 [] = []"
| "groups4 xs = [xs]"

definition lcg_step :: "32 word \<Rightarrow> 32 word" where
  "lcg_step v = v * 1664525 + 1013904223"

definition big_endian :: "8 word list \<Rightarrow> 32 word" where
  "big_endian g = foldl (\<lambda>t c. push_bit 8 t + ucast c) 0 g"

definition spec_lcg :: "8 word list \<Rightarrow> 32 word" where
  "spec_lcg bytes = foldl (XOR) 0 (map (\<lambda>g. lcg_step (big_endian g)) (groups4 bytes))"

text \<open>The value the code accumulates for a group: each byte converted from plain \<^verbatim>\<open>char\<close>.\<close>

definition char_accum :: "bool \<Rightarrow> 8 word list \<Rightarrow> 32 word" where
  "char_accum schar g = foldl (\<lambda>t c. push_bit 8 t + char_to_u32 schar c) 0 g"

text \<open>
  The Zobrist hash in the words of the specification: the exclusive or over all positions
  \<open>i\<close> of \<open>zobrist[byte_i][i mod L]\<close>, the byte read as a number from 0 to 255.
\<close>

definition spec_zobrist :: "hf_zobrist_state_t \<Rightarrow> 8 word list \<Rightarrow> 32 word" where
  "spec_zobrist st bytes =
     foldl (XOR) 0
       (map (\<lambda>(i, c). zobrist st ! unat c ! (i mod unat (tablelen st))) (enumerate 0 bytes))"

text \<open>A Zobrist state as \<^verbatim>\<open>hf_zobrist_init\<close> makes it for a request of at least 1.\<close>

definition zobrist_wf :: "hf_zobrist_state_t \<Rightarrow> bool" where
  "zobrist_wf st =
     ((\<exists>k \<in> {0..<31}. tablelen st = 2 ^ k) \<and> tablemask st = tablelen st - 1 \<and>
      length (zobrist st) = 256 \<and> list_all (\<lambda>row. length row = unat (tablelen st)) (zobrist st))"

section \<open>Scenarios\<close>

text \<open>
  The table of the growth scenario: connection keys, counter yields, the LCG hash
  function, 16 buckets and a maximum occupancy ratio of 0.5. The keys differ in the
  destination port; their buckets are 7, 4, 1, 14, 11, 8, 5, 2, 15, ...
\<close>

definition test_conn :: "nat \<Rightarrow> conn_t" where
  "test_conn i =
     \<lparr>saddr = 0x0A000001, daddr = 0x0A000002, sport = 1000, dport = of_nat (80 + i), proto = 6\<rparr>"

definition test_table :: "(conn_t, 32 word) hash_table_t" where
  "test_table = ht_raw_init ho_connection (ho_uint32 False) True True (hf_lcg True) 16 (1 / 2)"

text \<open>A sequence of inserts, with the return code of each.\<close>

fun insert_all ::
  "('k, 'y) hash_table_t \<Rightarrow> ('k \<times> 'y) list \<Rightarrow> (error + int list \<times> ('k, 'y) hash_table_t) option" where
  "insert_all ht [] = Some (Inr ([], ht))"
| "insert_all ht ((k, y) # kys) =
     (case ht_raw_insert ht k y of
        None \<Rightarrow> None
      | Some (Inl e) \<Rightarrow> Some (Inl e)
      | Some (Inr (rc, ht1)) \<Rightarrow>
          (case insert_all ht1 kys of
             None \<Rightarrow> None
           | Some (Inl e) \<Rightarrow> Some (Inl e)
           | Some (Inr (rcs, ht2)) \<Rightarrow> Some (Inr (rc # rcs, ht2))))"

definition test_pairs :: "nat \<Rightarrow> (conn_t \<times> 32 word) list" where
  "test_pairs n = map (\<lambda>i. (test_conn i, of_nat (i + 1))) [0..<n]"

text \<open>
  What a sequence of inserts leaves: the return codes, whether the growth test
  \<^verbatim>\<open>entries >= max_bucket_occupancy_ratio * nbuckets\<close> holds of the final table, its
  \<^verbatim>\<open>entries\<close> and \<^verbatim>\<open>nbuckets\<close>, and its chains.
\<close>

definition insert_all_outcome ::
  "('k, 'y) hash_table_t \<Rightarrow> ('k \<times> 'y) list \<Rightarrow>
   (error + int list \<times> bool \<times> 32 word \<times> 32 word \<times> ('k, 'y) hash_table_item_t list list) option" where
  "insert_all_outcome ht kys =
     (case insert_all ht kys of
        None \<Rightarrow> None
      | Some (Inl e) \<Rightarrow> Some (Inl e)
      | Some (Inr (rcs, ht1)) \<Rightarrow> Some (Inr (rcs, must_grow ht1, entries ht1, nbuckets ht1, bucket ht1)))"

text \<open>
  The tables of the insert and removal scenarios: one key with the yields 1, 2 and 3,
  each node linked at the head of the chain of bucket 7.
\<close>

definition test_item :: "32 word \<Rightarrow> (conn_t, 32 word) hash_table_item_t" where
  "test_item y = \<lparr>key = test_conn 0, yield = y, h = 7\<rparr>"

definition table_one :: "(conn_t, 32 word) hash_table_t" where
  "table_one = push_item test_table (test_item 1)"



text \<open>The chains after the first eight inserts of the growth scenario.\<close>

definition buckets_8 :: "(conn_t, 32 word) hash_table_item_t list list" where
  "buckets_8 =
       [[],
        [\<lparr>key = test_conn 2, yield = 3, h = 1\<rparr>],
        [\<lparr>key = test_conn 7, yield = 8, h = 2\<rparr>],
        [],
        [\<lparr>key = test_conn 1, yield = 2, h = 4\<rparr>],
        [\<lparr>key = test_conn 6, yield = 7, h = 5\<rparr>],
        [],
        [\<lparr>key = test_conn 0, yield = 1, h = 7\<rparr>],
        [\<lparr>key = test_conn 5, yield = 6, h = 8\<rparr>],
        [], [],
        [\<lparr>key = test_conn 4, yield = 5, h = 11\<rparr>],
        [], [],
        [\<lparr>key = test_conn 3, yield = 4, h = 14\<rparr>],
        []]"

text \<open>What a rebuild leaves: the bucket count, the length of the bucket array, the entries, the chains.\<close>

definition rebuild_outcome ::
  "('k, 'y) hash_table_t \<Rightarrow> 32 word \<Rightarrow>
   error + 32 word \<times> nat \<times> 32 word \<times> ('k, 'y) hash_table_item_t list list" where
  "rebuild_outcome ht n =
     (case ht_raw_rebuild ht n of
        Inl e \<Rightarrow> Inl e
      | Inr ht1 \<Rightarrow> Inr (nbuckets ht1, length (bucket ht1), entries ht1, bucket ht1))"

text \<open>
  A table keyed by \<^verbatim>\<open>double\<close> objects (little-endian machine, signed plain \<^verbatim>\<open>char\<close>),
  256 buckets, and that table after the insert of the key \<open>-0.0\<close> (bit pattern
  \<open>0x8000000000000000\<close>, bucket 128) with the yield 1; the key \<open>0.0\<close> is the
  pattern 0 (bucket 0).
\<close>

definition double_table :: "(64 word, 32 word) hash_table_t" where
  "double_table = ht_raw_init (ho_double False) (ho_uint32 False) True True (hf_lcg True) 256 (1 / 2)"



text \<open>The table with one node in the last bucket (index 15).\<close>

definition table_last :: "(conn_t, 32 word) hash_table_t" where
  "table_last = push_item test_table \<lparr>key = test_conn 8, yield = 1, h = 15\<rparr>"

section \<open>Word facts\<close>

lemma unat_ucast_16_32: "unat (ucast (x :: 16 word) :: 32 word) = unat x"
proof -
  have "unat x < 2 ^ 16" using unsigned_less [of x, where 'a = nat] by simp
  then have "unat x < 2 ^ 32" by simp
  then show ?thesis by (simp add: unsigned_ucast_eq take_bit_nat_eq_self)
qed

lemma port_less: "(ucast (x :: 16 word) :: 32 word) < ucast (y :: 16 word) \<longleftrightarrow> x < y"
  by (simp add: word_less_nat_alt unat_ucast_16_32)

lemma sint_small: "(c :: 8 word) < 0x80 \<Longrightarrow> sint c = uint c"
proof -
  assume "c < 0x80"
  then have "uint c < 2 ^ 7" by (simp add: word_less_def)
  moreover have "- (2 ^ 7) \<le> uint c" by (rule order_trans [of _ 0]) simp_all
  ultimately have "signed_take_bit 7 (uint c) = uint c"
    by (rule signed_take_bit_int_eq_self [rotated])
  then show ?thesis by (simp add: sint_uint)
qed

lemma scast_small: "(c :: 8 word) < 0x80 \<Longrightarrow> (scast c :: 32 word) = ucast c"
  by (metis of_int_sint of_int_uint sint_small)

lemma char_to_u32_small: "\<not> schar \<or> c < 0x80 \<Longrightarrow> char_to_u32 schar c = ucast c"
  by (auto simp: char_to_u32_def scast_small)

lemma char_to_int_small: "\<not> schar \<or> c < 0x80 \<Longrightarrow> char_to_int schar c = uint c"
  by (auto simp: char_to_int_def sint_small)

lemma unat_and_pow2_minus_1: "unat ((w :: 32 word) AND (2 ^ k - 1)) = unat w mod 2 ^ k"
proof -
  have "w AND (2 ^ k - 1) = take_bit k w"
    by (simp add: take_bit_eq_mask mask_eq_decr_exp)
  then have "unat (w AND (2 ^ k - 1)) = unat (take_bit k w)" by simp
  also have "\<dots> = take_bit k (unat w)" by (rule unsigned_take_bit_eq)
  also have "\<dots> = unat w mod 2 ^ k" by (rule take_bit_eq_mod)
  finally show ?thesis .
qed

lemma len32: "LENGTH(32) = 32"
  by simp

lemma unat_pow2_32: "k < 32 \<Longrightarrow> unat (2 ^ k :: 32 word) = 2 ^ k"
proof -
  assume "k < 32"
  then have "(2 :: nat) ^ k < 2 ^ 32" by (rule power_strict_increasing) simp
  moreover have "(2 ^ k :: 32 word) = of_nat (2 ^ k)" by simp
  ultimately show ?thesis by (metis unat_of_nat len32 mod_less)
qed

lemma uint_byte_less: "uint (c :: 8 word) < 256"
  using unsigned_less [of c, where 'a = int] by simp

lemma unat_byte_less: "unat (c :: 8 word) < 256"
  using unsigned_less [of c, where 'a = nat] by simp

section \<open>The connection key\<close>

lemma conn_should_swap_iff:
  "conn_should_swap c \<longleftrightarrow> daddr c < saddr c \<or> (saddr c = daddr c \<and> dport c < sport c)"
  by (auto simp: conn_should_swap_def)

text \<open>The comparator returns 0 exactly on the same tuple and on the reversed tuple.\<close>

lemma conncmp_zero_iff:
  "conncmp c1 c2 = 0 \<longleftrightarrow>
     (saddr c1 = saddr c2 \<and> daddr c1 = daddr c2 \<and> sport c1 = sport c2 \<and>
      dport c1 = dport c2 \<and> proto c1 = proto c2)
   \<or> (saddr c1 = daddr c2 \<and> daddr c1 = saddr c2 \<and> sport c1 = dport c2 \<and>
      dport c1 = sport c2 \<and> proto c1 = proto c2)"
  (is "?L \<longleftrightarrow> ?S \<or> ?R")
proof (cases "?S \<or> ?R")
  case True
  then show ?thesis by (auto simp: conncmp_def)
next
  case False
  define s1 where "s1 = conn_should_swap c1"
  define s2 where "s2 = conn_should_swap c2"
  have ne: "conncmp c1 c2 \<noteq> 0"
  proof
    assume z: "conncmp c1 c2 = 0"
    from z False have
      a: "(if \<not> s1 then saddr c1 else daddr c1) = (if \<not> s2 then saddr c2 else daddr c2)" and
      b: "(if s1 then saddr c1 else daddr c1) = (if s2 then saddr c2 else daddr c2)" and
      p: "(if \<not> s1 then sport c1 else dport c1) = (if \<not> s2 then sport c2 else dport c2)" and
      q: "(if s1 then sport c1 else dport c1) = (if s2 then sport c2 else dport c2)" and
      r: "proto c1 = proto c2"
      unfolding conncmp_def Let_def s1_def s2_def port_less
      by (simp_all add: not_less split: if_splits)
    show False
    proof (cases s1; cases s2)
      assume "s1" "s2" with a b p q r False show False by simp
    next
      assume "\<not> s1" "\<not> s2" with a b p q r False show False by simp
    next
      assume "s1" "\<not> s2" with a b p q r False show False by simp
    next
      assume "\<not> s1" "s2" with a b p q r False show False by simp
    qed
  qed
  with False show ?thesis by simp
qed

lemma conn_marshall_rev:
  "conn_marshall \<lparr>saddr = a, daddr = b, sport = sp, dport = dp, proto = pr\<rparr>
   = conn_marshall \<lparr>saddr = b, daddr = a, sport = dp, dport = sp, proto = pr\<rparr>"
proof -
  consider "a < b" | "b < a" | "a = b" "sp < dp" | "a = b" "dp < sp" | "a = b" "sp = dp"
    by (metis linorder_less_linear)
  then show ?thesis
    by cases (auto simp: conn_marshall_def conn_should_swap_def Let_def dest: order_less_asym)
qed

lemma length_conn_marshall: "length (conn_marshall c) = 13"
  by (simp add: conn_marshall_def word_bytes_def Let_def)

lemma conncmp_same_class:
  "conncmp c1 c2 = 0 \<Longrightarrow> (conncmp c1 x = 0) = (conncmp c2 x = 0)"
  unfolding conncmp_zero_iff by auto

lemma conncmp_marshall: "conncmp c1 c2 = 0 \<Longrightarrow> conn_marshall c1 = conn_marshall c2"
proof -
  assume "conncmp c1 c2 = 0"
  then consider "c1 = c2"
    | "c1 = \<lparr>saddr = daddr c2, daddr = saddr c2, sport = dport c2, dport = sport c2, proto = proto c2\<rparr>"
    unfolding conncmp_zero_iff by (cases c1; cases c2) auto
  then show ?thesis
  proof cases
    case 1
    then show ?thesis by simp
  next
    case 2
    have "conn_marshall c2 =
      conn_marshall \<lparr>saddr = saddr c2, daddr = daddr c2, sport = sport c2, dport = dport c2, proto = proto c2\<rparr>"
      by (cases c2) simp
    then show ?thesis unfolding 2 by (simp only: conn_marshall_rev)
  qed
qed

text \<open>
  C6. For every 5-tuple \<open>(a, b, sp, dp, pr)\<close>: the tuple and its reversed orientation
  \<open>(b, a, dp, sp, pr)\<close> marshal to the same 13 bytes; the swap is made exactly when
  \<open>a > b\<close>, or \<open>a = b\<close> and \<open>sp > dp\<close>; the comparator returns 0 on the two
  orientations (either way round); and a table keyed by connections treats them as one
  key: they hash alike and match the same items.
\<close>

theorem conn_orientation_symmetry:
  "(let c1 = \<lparr>saddr = a, daddr = b, sport = sp, dport = dp, proto = pr\<rparr>;
        c2 = \<lparr>saddr = b, daddr = a, sport = dp, dport = sp, proto = pr\<rparr>
    in conn_marshall c1 = conn_marshall c2 \<and>
       length (conn_marshall c1) = 13 \<and>
       conn_should_swap c1 = (b < a \<or> (a = b \<and> dp < sp)) \<and>
       conncmp c1 c2 = 0 \<and> conncmp c2 c1 = 0 \<and>
       hf_lcg schar ho_connection c1 = hf_lcg schar ho_connection c2 \<and>
       key_matches (ht\<lparr>ho_key := ho_connection\<rparr>) (Some c1) item =
         key_matches (ht\<lparr>ho_key := ho_connection\<rparr>) (Some c2) item)"
proof -
  define c1 where "c1 = \<lparr>saddr = a, daddr = b, sport = sp, dport = dp, proto = pr\<rparr>"
  define c2 where "c2 = \<lparr>saddr = b, daddr = a, sport = dp, dport = sp, proto = pr\<rparr>"
  have m: "conn_marshall c1 = conn_marshall c2"
    unfolding c1_def c2_def by (rule conn_marshall_rev)
  have s: "conn_should_swap c1 = (b < a \<or> (a = b \<and> dp < sp))"
    by (simp add: conn_should_swap_iff c1_def)
  have z: "conncmp c1 c2 = 0" "conncmp c2 c1 = 0"
    by (simp_all add: conncmp_zero_iff c1_def c2_def)
  have hh: "hf_lcg schar ho_connection c1 = hf_lcg schar ho_connection c2"
    by (simp add: hf_lcg_def ho_connection_def m)
  have k: "key_matches (ht\<lparr>ho_key := ho_connection\<rparr>) (Some c1) item =
         key_matches (ht\<lparr>ho_key := ho_connection\<rparr>) (Some c2) item"
    using conncmp_same_class [OF z(1)] by (simp add: key_matches_def ho_connection_def)
  from m s z hh k length_conn_marshall [of c1] show ?thesis
    unfolding Let_def c1_def c2_def by blast
qed

theorem conn_orientation_symmetry_witness:
  "conn_marshall \<lparr>saddr = 0x01020304, daddr = 0x05060708, sport = 101, dport = 102, proto = 11\<rparr>
     = [1, 2, 3, 4, 5, 6, 7, 8, 0, 101, 0, 102, 11] \<and>
   conn_marshall \<lparr>saddr = 0x05060708, daddr = 0x01020304, sport = 102, dport = 101, proto = 11\<rparr>
     = [1, 2, 3, 4, 5, 6, 7, 8, 0, 101, 0, 102, 11] \<and>
   conncmp \<lparr>saddr = 0x01020304, daddr = 0x05060708, sport = 101, dport = 102, proto = 11\<rparr>
           \<lparr>saddr = 0x05060708, daddr = 0x01020304, sport = 102, dport = 101, proto = 11\<rparr> = 0"
proof -
  have e: "conn_marshall \<lparr>saddr = 0x01020304, daddr = 0x05060708, sport = 101, dport = 102, proto = 11\<rparr>
     = [1, 2, 3, 4, 5, 6, 7, 8, 0, 101, 0, 102, 11]"
    by code_simp
  from conn_orientation_symmetry [of "0x01020304" "0x05060708" 101 102 11 True test_table
      "\<lparr>key = test_conn 0, yield = 1, h = 7\<rparr>"] e
  show ?thesis unfolding Let_def by metis
qed

section \<open>The LCG hash function\<close>

lemma lcg_step_eq: "tmp * lcg_A + lcg_B = lcg_step tmp"
  by (simp add: lcg_step_def lcg_A_def lcg_B_def)

lemma Suc4_facts:
  "Suc (Suc (Suc (Suc (4 * m + n)))) = 4 + 4 * m + n"
  "Suc (Suc (Suc (Suc (4 * m)))) = 4 + 4 * m"
  by simp_all

lemma mod4_facts:
  "Suc (4 * m) mod 4 = 1" "Suc (Suc (4 * m)) mod 4 = 2" "Suc (Suc (Suc (4 * m))) mod 4 = 3"
  by presburger+

text \<open>
  The loop, entered at the start of a group (index \<open>4 * m\<close>, \<^verbatim>\<open>tmp = 0\<close>), folds the
  remaining groups into \<^verbatim>\<open>hashvalue\<close>.
\<close>

lemma hf_lcg_loop_groups:
  "hf_lcg_loop schar (4 * m + length bytes) (4 * m) bytes hv 0 =
     foldl (XOR) hv (map (\<lambda>g. lcg_step (char_accum schar g)) (groups4 bytes))"
proof (induction bytes arbitrary: m hv rule: groups4.induct)
  case (1 a b c d rest)
  have "hf_lcg_loop schar (4 * m + length (a # b # c # d # rest)) (4 * m) (a # b # c # d # rest) hv 0
        = hf_lcg_loop schar (4 * (m + 1) + length rest) (4 * (m + 1)) rest
            (hv XOR lcg_step (char_accum schar [a, b, c, d])) 0"
    by (simp add: Let_def char_accum_def lcg_step_eq mod4_facts Suc4_facts)
  then show ?case using 1 [of "m + 1"] by simp
qed (simp_all add: Let_def char_accum_def lcg_step_eq mod4_facts)

lemma hf_lcg_generic_grouped:
  "hf_lcg_generic schar bytes =
     foldl (XOR) 0 (map (\<lambda>g. lcg_step (char_accum schar g)) (groups4 bytes))"
  using hf_lcg_loop_groups [of schar 0 bytes 0] by (simp add: hf_lcg_generic_def)

lemma set_groups4: "g \<in> set (groups4 xs) \<Longrightarrow> set g \<subseteq> set xs"
  by (induction xs rule: groups4.induct) auto

lemma char_accum_big_endian:
  assumes "\<not> schar \<or> (\<forall>c \<in> set g. c < 0x80)"
  shows "char_accum schar g = big_endian g"
proof -
  have "foldl (\<lambda>t c. push_bit 8 t + char_to_u32 schar c) t0 g =
        foldl (\<lambda>t c. push_bit 8 t + ucast c) t0 g" for t0
    using assms by (induction g arbitrary: t0) (auto simp: char_to_u32_small)
  then show ?thesis by (simp add: char_accum_def big_endian_def)
qed

lemma hf_lcg_generic_spec:
  assumes "\<not> schar \<or> (\<forall>c \<in> set bytes. c < 0x80)"
  shows "hf_lcg_generic schar bytes = spec_lcg bytes"
proof -
  have "\<forall>g \<in> set (groups4 bytes). char_accum schar g = big_endian g"
    using assms set_groups4 [of _ bytes] by (auto intro!: char_accum_big_endian)
  then have m: "map (\<lambda>g. lcg_step (char_accum schar g)) (groups4 bytes) =
                map (\<lambda>g. lcg_step (big_endian g)) (groups4 bytes)"
    by (intro map_cong) simp_all
  show ?thesis unfolding hf_lcg_generic_grouped spec_lcg_def m ..
qed

text \<open>
  C7, as the specification states it, fails where plain \<^verbatim>\<open>char\<close> is signed: for the two
  bytes 0x01 0x80 the code adds the sign-extended 0xFFFFFF80 to \<^verbatim>\<open>tmp << 8\<close>, so the
  group value is 0x80 and not the big-endian 0x0180.
\<close>

theorem hf_lcg_big_endian_counterexample:
  "hf_lcg_generic True [0x01, 0x80] \<noteq> spec_lcg [0x01, 0x80]"
proof -
  have "hf_lcg_generic True [0x01, 0x80] = 1226963423" by code_simp
  moreover have "spec_lcg [0x01, 0x80] = 1653081823" by code_simp
  ultimately show ?thesis by simp
qed

text \<open>
  C7, amended. For every byte string the LCG hash takes the bytes four at a time (the last
  group may be shorter), accumulates each group as \<^verbatim>\<open>tmp = (tmp << 8) + c\<close> with \<open>c\<close>
  the byte converted from plain \<^verbatim>\<open>char\<close>, applies \<open>v * 1664525 + 1013904223\<close>
  (mod \<open>2^32\<close>) to each group and combines the results by exclusive or; it is a function
  of the bytes and the signedness of \<^verbatim>\<open>char\<close> alone. The accumulation is the big-endian
  one of the specification when plain \<^verbatim>\<open>char\<close> is unsigned or every byte is below
  0x80.
\<close>

theorem hf_lcg_generic_groups:
  "hf_lcg_generic schar bytes =
     foldl (XOR) 0 (map (\<lambda>g. lcg_step (char_accum schar g)) (groups4 bytes)) \<and>
   (\<not> schar \<or> (\<forall>c \<in> set bytes. c < 0x80) \<longrightarrow> hf_lcg_generic schar bytes = spec_lcg bytes)"
  using hf_lcg_generic_grouped hf_lcg_generic_spec by blast

theorem hf_lcg_generic_groups_witness:
  "hf_lcg_generic True [1, 2, 3, 4, 5] =
     foldl (XOR) 0 (map (\<lambda>g. lcg_step (char_accum True g)) (groups4 [1, 2, 3, 4, 5])) \<and>
   list_all (\<lambda>c. c < 0x80) [1, 2, 3, 4, 5 :: 8 word] \<and>
   hf_lcg_generic True [1, 2, 3, 4, 5] = spec_lcg [1, 2, 3, 4, 5] \<and>
   spec_lcg [1, 2, 3, 4, 5] = 1590510387"
proof -
  have e: "spec_lcg [1, 2, 3, 4, 5] = 1590510387" by code_simp
  have s: "\<forall>c \<in> set [1, 2, 3, 4, 5 :: 8 word]. c < 0x80" by simp
  have l: "list_all (\<lambda>c. c < 0x80) [1, 2, 3, 4, 5 :: 8 word]" by simp
  from hf_lcg_generic_groups [of True "[1, 2, 3, 4, 5]"] e s l show ?thesis by blast
qed

section \<open>The Zobrist hash function\<close>

text \<open>
  When the row index cannot be negative (plain \<^verbatim>\<open>char\<close> unsigned, or every byte below
  0x80) the loop computes the specification's exclusive or.
\<close>

lemma hf_zobrist_loop_spec:
  assumes wf: "zobrist_wf st"
      and small: "\<not> schar \<or> (\<forall>c \<in> set bytes. c < 0x80)"
      and len: "i + length bytes \<le> 2 ^ 32"
  shows "hf_zobrist_loop schar st i bytes hv =
           Inr (foldl (XOR) hv
             (map (\<lambda>(j, c). zobrist st ! unat c ! (j mod unat (tablelen st))) (enumerate i bytes)))"
  using small len
proof (induction bytes arbitrary: i hv)
  case Nil
  then show ?case by simp
next
  case (Cons c bytes)
  from wf obtain k where k: "k < 31" "tablelen st = 2 ^ k"
    by (auto simp: zobrist_wf_def)
  from wf have m: "tablemask st = 2 ^ k - 1" and n: "length (zobrist st) = 256"
    and rows: "\<And>r. r < 256 \<Longrightarrow> length (zobrist st ! r) = unat (tablelen st)"
    using k by (auto simp: zobrist_wf_def list_all_length)
  have tl: "unat (tablelen st) = 2 ^ k" using k by (simp add: unat_pow2_32)
  have r: "char_to_int schar c = uint c" using Cons.prems(1) by (auto intro: char_to_int_small)
  have rl: "nat (uint c) = unat c" by simp
  have i: "i < 2 ^ 32" using Cons.prems(2) by simp
  then have ui: "unat (of_nat i :: 32 word) = i" by (simp add: unat_of_nat)
  have j: "unat ((of_nat i :: 32 word) AND tablemask st) = i mod 2 ^ k"
    by (simp add: m unat_and_pow2_minus_1 ui)
  have jl: "i mod 2 ^ k < unat (tablelen st)" by (simp add: tl)
  have IH: "hf_zobrist_loop schar st (Suc i) bytes hv' =
           Inr (foldl (XOR) hv'
             (map (\<lambda>(j, c). zobrist st ! unat c ! (j mod unat (tablelen st)))
               (enumerate (Suc i) bytes)))" for hv'
    using Cons.IH [of "Suc i" hv'] Cons.prems by simp
  show ?case
    using jl uint_byte_less [of c] unat_byte_less [of c]
    by (simp add: Let_def r n rows j IH tl rl not_le del: unsigned_less nat_uint_eq)
qed

lemma hf_zobrist_generic_unsigned:
  "zobrist_wf st \<Longrightarrow> \<not> schar \<or> (\<forall>c \<in> set bytes. c < 0x80) \<Longrightarrow> length bytes \<le> 2 ^ 32 \<Longrightarrow>
   hf_zobrist_generic schar st bytes = Inr (spec_zobrist st bytes)"
  using hf_zobrist_loop_spec [of st schar bytes 0 0]
  by (simp add: hf_zobrist_generic_def spec_zobrist_def)

text \<open>
  C8 at the failing input: plain \<^verbatim>\<open>char\<close> signed and a key that starts with the byte
  0x80. The row index \<^verbatim>\<open>(int)(*key++)\<close> is -128, outside the 256 rows of
  \<^verbatim>\<open>zobrist\<close>, whatever the state; the specification reads row 128.
\<close>

theorem hf_zobrist_signed_char_out_of_bounds:
  "hf_zobrist_generic True st (0x80 # rest) = Inl OutOfBounds"
  by (simp add: hf_zobrist_generic_def Let_def char_to_int_def)

section \<open>The halving loop of \<^verbatim>\<open>ht_raw_init\<close>\<close>

lemma drop_bit_pow2: "k < 31 \<Longrightarrow> drop_bit 1 (2 ^ Suc k :: 32 word) = 2 ^ k"
proof -
  assume k: "k < 31"
  have "unat (drop_bit 1 (2 ^ Suc k :: 32 word)) = unat (2 ^ Suc k :: 32 word) div 2"
    by (simp add: drop_bit_eq_div unat_div del: power_Suc)
  also have "\<dots> = 2 ^ k" using k unat_pow2_32 [of "Suc k"] by simp
  also have "\<dots> = unat (2 ^ k :: 32 word)" using k by (simp add: unat_pow2_32)
  finally show ?thesis by (simp only: word_unat_eq_iff)
qed

lemma drop_bit_pow2_Suc0: "k < 31 \<Longrightarrow> drop_bit (Suc 0) (2 ^ Suc k :: 32 word) = 2 ^ k"
  using drop_bit_pow2 [of k] by (simp del: power_Suc)

lemma largest_pow2_le_range: "2 ^ k \<le> m \<Longrightarrow> m < 2 ^ Suc k \<Longrightarrow> largest_pow2_le m = 2 ^ k"
proof (induction k arbitrary: m)
  case 0
  then have "m = 1" by simp
  then show ?case by simp
next
  case (Suc k)
  then have "2 ^ k \<le> m div 2" "m div 2 < 2 ^ Suc k" by auto
  then have "largest_pow2_le (m div 2) = 2 ^ k" by (rule Suc.IH)
  moreover have "(2 :: nat) \<le> 2 ^ Suc k" by simp
  then have "\<not> m < 2" using Suc.prems(1) by linarith
  ultimately show ?case by (subst largest_pow2_le.simps) simp
qed

lemma word_pow2_less: "k < 32 \<Longrightarrow> ((2 ^ k :: 32 word) > n) = (unat n < 2 ^ k)"
  by (simp add: word_less_nat_alt unat_pow2_32)

lemma pow2_loop_value:
  "k \<le> 30 \<Longrightarrow> n \<noteq> 0 \<Longrightarrow> pow2_loop (2 ^ k) n = 2 ^ k \<and> 2 ^ k \<le> unat n \<or>
     (\<exists>j < k. pow2_loop (2 ^ k) n = 2 ^ j \<and> 2 ^ j \<le> unat n \<and> unat n < 2 ^ Suc j)"
proof (induction k)
  case 0
  then have "unat n \<noteq> 0" by (simp add: unat_eq_zero)
  then have "\<not> (2 ^ 0 :: 32 word) > n" by (simp add: word_less_nat_alt)
  then show ?case using \<open>unat n \<noteq> 0\<close> by (subst pow2_loop.simps) simp
next
  case (Suc k)
  show ?case
  proof (cases "(2 ^ Suc k :: 32 word) > n")
    case True
    then have lt: "unat n < 2 ^ Suc k" using Suc.prems by (simp add: word_pow2_less del: power_Suc)
    have e: "pow2_loop (2 ^ Suc k) n = pow2_loop (2 ^ k) n"
      using True Suc.prems by (subst pow2_loop.simps) (simp add: drop_bit_pow2_Suc0 del: power_Suc)
    from Suc have "pow2_loop (2 ^ k) n = 2 ^ k \<and> 2 ^ k \<le> unat n \<or>
     (\<exists>j < k. pow2_loop (2 ^ k) n = 2 ^ j \<and> 2 ^ j \<le> unat n \<and> unat n < 2 ^ Suc j)" by simp
    then show ?thesis unfolding e using lt by (auto intro: less_SucI simp del: power_Suc)
  next
    case False
    then have "2 ^ Suc k \<le> unat n" using Suc.prems by (simp add: word_pow2_less not_less del: power_Suc)
    moreover have "pow2_loop (2 ^ Suc k) n = 2 ^ Suc k"
      using False by (subst pow2_loop.simps) simp
    ultimately show ?thesis by (simp del: power_Suc)
  qed
qed

lemma pow2_loop_zero: "k \<le> 30 \<Longrightarrow> pow2_loop (2 ^ k) 0 = 0"
proof (induction k)
  case 0
  have "pow2_loop 1 0 = pow2_loop 0 0" by (subst pow2_loop.simps) (simp add: drop_bit_eq_div)
  also have "\<dots> = 0" by (subst pow2_loop.simps) simp
  finally show ?case by simp
next
  case (Suc k)
  then have "(2 ^ Suc k :: 32 word) > 0" by (simp add: word_pow2_less del: power_Suc)
  then have "pow2_loop (2 ^ Suc k) 0 = pow2_loop (2 ^ k) 0"
    using Suc.prems by (subst pow2_loop.simps) (simp add: drop_bit_pow2_Suc0 del: power_Suc)
  then show ?case using Suc by simp
qed


section \<open>Initialisation\<close>

lemma word_pow2_less_16: "j \<le> 30 \<Longrightarrow> ((2 ^ j :: 32 word) < 16) = (j < 4)"
proof -
  assume "j \<le> 30"
  then have "unat (2 ^ j :: 32 word) = 2 ^ j" by (simp add: unat_pow2_32)
  moreover have "((2 :: nat) ^ j < 2 ^ 4) = (j < 4)" by (rule power_strict_increasing_iff) simp
  ultimately show ?thesis by (simp add: word_less_nat_alt)
qed

lemma init_nbuckets_cases:
  obtains (zero) "n = 0" "pow2_loop 0x40000000 n = 0"
  | (pow) j where "n \<noteq> 0" "j \<le> 30" "pow2_loop 0x40000000 n = 2 ^ j" "2 ^ j \<le> unat n"
      "j < 30 \<longrightarrow> unat n < 2 ^ Suc j"
proof (cases "n = 0")
  case True
  moreover have "pow2_loop (2 ^ 30) 0 = 0" by (rule pow2_loop_zero) simp
  ultimately show ?thesis using zero by simp
next
  case False
  from pow2_loop_value [of 30 n] False
  consider "pow2_loop (2 ^ 30) n = 2 ^ 30" "2 ^ 30 \<le> unat n"
    | j where "j < 30" "pow2_loop (2 ^ 30) n = 2 ^ j" "2 ^ j \<le> unat n" "unat n < 2 ^ Suc j"
    by auto
  then show ?thesis
  proof cases
    case 1
    then show ?thesis using pow [of 30] False by simp
  next
    case (2 j)
    then show ?thesis using pow [of j] False by simp
  qed
qed

lemma init_nb_pow2: "\<exists>k. 4 \<le> k \<and> k \<le> 30 \<and> init_nb n = 2 ^ k"
proof (cases n rule: init_nbuckets_cases)
  case zero
  then have "init_nb n = 2 ^ 4" by (simp add: init_nb_def)
  then show ?thesis by (intro exI [of _ 4]) simp
next
  case (pow j)
  show ?thesis
  proof (cases "j < 4")
    case True
    then have "init_nb n = 2 ^ 4" using pow by (simp add: init_nb_def word_pow2_less_16)
    then show ?thesis by (intro exI [of _ 4]) simp
  next
    case False
    then have "init_nb n = 2 ^ j" using pow by (simp add: init_nb_def word_pow2_less_16)
    then show ?thesis using False pow by (intro exI [of _ j]) simp
  qed
qed

lemma largest_pow2_le_pow2: "largest_pow2_le (2 ^ k) = 2 ^ k"
  by (rule largest_pow2_le_range) simp_all

lemma init_nb_spec: "unat (init_nb n) = spec_nbuckets (min (unat n) (2 ^ 30))"
proof (cases n rule: init_nbuckets_cases)
  case zero
  then show ?thesis by (simp add: init_nb_def spec_nbuckets_def)
next
  case (pow j)
  have l: "largest_pow2_le (min (unat n) (2 ^ 30)) = 2 ^ j"
  proof (cases "j < 30")
    case True
    then have "unat n < 2 ^ Suc j" using pow by simp
    moreover have "(2 :: nat) ^ Suc j \<le> 2 ^ 30" using True by (intro power_increasing) simp_all
    ultimately have "min (unat n) (2 ^ 30) = unat n" by simp
    then show ?thesis using pow \<open>unat n < 2 ^ Suc j\<close> by (simp add: largest_pow2_le_range del: largest_pow2_le.simps power_Suc)
  next
    case False
    then have "j = 30" using pow by simp
    then have "min (unat n) (2 ^ 30) = 2 ^ 30" using pow by simp
    then show ?thesis using \<open>j = 30\<close> largest_pow2_le_pow2 [of 30] by (simp del: largest_pow2_le.simps)
  qed
  have u: "unat (2 ^ j :: 32 word) = 2 ^ j" using pow by (simp add: unat_pow2_32)
  show ?thesis
  proof (cases "j < 4")
    case True
    then have "(2 :: nat) ^ j < 2 ^ 4" by (intro power_strict_increasing) simp_all
    then show ?thesis using True pow l by (simp add: init_nb_def word_pow2_less_16 spec_nbuckets_def del: largest_pow2_le.simps)
  next
    case False
    then have "(2 :: nat) ^ 4 \<le> 2 ^ j" by (intro power_increasing) simp_all
    then show ?thesis using False pow l u by (simp add: init_nb_def word_pow2_less_16 spec_nbuckets_def del: largest_pow2_le.simps)
  qed
qed

lemma init_nb_fixed: "4 \<le> k \<Longrightarrow> k \<le> 30 \<Longrightarrow> init_nb (2 ^ k) = 2 ^ k"
proof -
  assume k: "4 \<le> k" "k \<le> 30"
  have u: "unat (2 ^ k :: 32 word) = 2 ^ k" using k by (simp add: unat_pow2_32)
  have "(2 :: nat) ^ k \<le> 2 ^ 30" using k by (intro power_increasing) simp_all
  then have "min ((2 :: nat) ^ k) (2 ^ 30) = 2 ^ k" by simp
  moreover have "(2 :: nat) ^ 4 \<le> 2 ^ k" using k by (intro power_increasing) simp_all
  ultimately have "unat (init_nb (2 ^ k)) = 2 ^ k"
    using largest_pow2_le_pow2 [of k]
    by (simp add: init_nb_spec u spec_nbuckets_def del: largest_pow2_le.simps)
  then show ?thesis using u by (simp add: word_unat_eq_iff)
qed

lemma concat_replicate_Nil: "concat (replicate n []) = []"
  by (induction n) simp_all

lemma init_fields:
  "nbuckets (ht_raw_init ko yo ck cy hfn n r) = init_nb n"
  "mask (ht_raw_init ko yo ck cy hfn n r) = init_nb n - 1"
  "bucket (ht_raw_init ko yo ck cy hfn n r) = replicate (unat (init_nb n)) []"
  "entries (ht_raw_init ko yo ck cy hfn n r) = 0"
  "ho_key (ht_raw_init ko yo ck cy hfn n r) = ko"
  "ho_yield (ht_raw_init ko yo ck cy hfn n r) = yo"
  "hf (ht_raw_init ko yo ck cy hfn n r) = hfn"
  "max_bucket_occupancy_ratio (ht_raw_init ko yo ck cy hfn n r) = r"
  "copy_keys (ht_raw_init ko yo ck cy hfn n r) = ck"
  "copy_yields (ht_raw_init ko yo ck cy hfn n r) = cy"
  by (simp_all add: ht_raw_init_def Let_def)

lemma ht_wf_init: "ht_wf (ht_raw_init ko yo ck cy hfn n r)"
proof -
  obtain k where k: "4 \<le> k" "k \<le> 30" "init_nb n = 2 ^ k" using init_nb_pow2 by blast
  then have "\<exists>k \<in> {4..<31}. init_nb n = 2 ^ k" by (intro bexI [of _ k]) simp_all
  then show ?thesis
    by (simp add: ht_wf_def init_fields chains_ok_def items_def concat_replicate_Nil)
qed


section \<open>Linking a node\<close>

lemma mset_concat_push:
  "i < length xs \<Longrightarrow> mset (concat (xs[i := x # xs ! i])) = add_mset x (mset (concat xs))"
proof (induction xs arbitrary: i)
  case Nil
  then show ?case by simp
next
  case (Cons a xs)
  then show ?case by (cases i) simp_all
qed

lemma ht_wf_D:
  assumes "ht_wf ht"
  obtains k where "4 \<le> k" "k \<le> 30" "nbuckets ht = 2 ^ k" "mask ht = 2 ^ k - 1"
    "length (bucket ht) = 2 ^ k" "unat (nbuckets ht) = 2 ^ k"
proof -
  from assms obtain k where k: "4 \<le> k" "k < 31" "nbuckets ht = 2 ^ k"
    by (auto simp: ht_wf_def)
  then have "unat (nbuckets ht) = 2 ^ k" by (simp add: unat_pow2_32)
  with k assms show ?thesis by (intro that [of k]) (simp_all add: ht_wf_def)
qed

lemma hash_in_range: "ht_wf ht \<Longrightarrow> unat (x AND mask ht) < length (bucket ht)"
  by (erule ht_wf_D) (simp add: unat_and_pow2_minus_1)

lemma hash_lt_2p30: "ht_wf ht \<Longrightarrow> unat (x AND mask ht) < 2 ^ 30"
proof (erule ht_wf_D)
  fix k assume k: "k \<le> 30" "mask ht = 2 ^ k - 1"
  have "unat (x AND mask ht) < 2 ^ k" using k by (simp add: unat_and_pow2_minus_1)
  also have "(2 :: nat) ^ k \<le> 2 ^ 30" using k by (intro power_increasing) simp_all
  finally show ?thesis .
qed

lemma sint_eq_unat: "unat (w :: 32 word) < 2 ^ 30 \<Longrightarrow> sint w = int (unat w)"
proof -
  assume a: "unat w < 2 ^ 30"
  have u: "uint w = int (unat w)" by simp
  have "int (unat w) < int (2 ^ 30)" using a by (simp only: of_nat_less_iff)
  also have "int (2 ^ 30) < 2 ^ 31" by simp
  finally have "int (unat w) < 2 ^ 31" .
  then have "uint w < 2 ^ 31" unfolding u .
  moreover have "- (2 ^ 31) \<le> uint w" by (rule order_trans [of _ 0]) simp_all
  ultimately have "signed_take_bit 31 (uint w) = uint w"
    by (rule signed_take_bit_int_eq_self [rotated])
  then show ?thesis unfolding u [symmetric] by (simp add: sint_uint)
qed

lemma bucket_at_in_range: "i < length (bucket ht) \<Longrightarrow> bucket_at ht (int i) = Inr (bucket ht ! i)"
  by (simp add: bucket_at_def)

lemma same_frame_refl: "same_frame ht ht"
  by (simp add: same_frame_def)

lemma same_frame_trans: "same_frame a b \<Longrightarrow> same_frame b c \<Longrightarrow> same_frame a c"
  by (simp add: same_frame_def)

lemma same_frame_push: "same_frame (push_item ht it) ht"
  by (simp add: same_frame_def push_item_def)

lemma rehash_same_frame: "same_frame ht1 ht \<Longrightarrow> rehash ht1 = rehash ht"
  by (auto simp: same_frame_def rehash_def fun_eq_iff)

lemma items_push:
  "unat (h it) < length (bucket ht) \<Longrightarrow> mset (items (push_item ht it)) = add_mset it (mset (items ht))"
  by (simp add: items_def push_item_def mset_concat_push)

lemma ht_wf_push:
  assumes wf: "ht_wf ht" and hh: "h it = hf ht (ho_key ht) (key it) AND mask ht"
  shows "ht_wf (push_item ht it)"
proof -
  have r: "unat (h it) < length (bucket ht)" unfolding hh using wf by (rule hash_in_range)
  have "size (mset (items (push_item ht it))) = Suc (size (mset (items ht)))"
    using items_push [OF r] by simp
  then have len: "length (items (push_item ht it)) = Suc (length (items ht))" by simp
  have c: "chains_ok (push_item ht it)"
    unfolding chains_ok_def
  proof (intro ballI)
    fix b x
    assume b: "b \<in> {0..<length (bucket (push_item ht it))}"
      and x: "x \<in> set (bucket (push_item ht it) ! b)"
    have fr: "hf (push_item ht it) = hf ht" "ho_key (push_item ht it) = ho_key ht"
      "mask (push_item ht it) = mask ht"
      by (simp_all add: push_item_def)
    from b have bl: "b < length (bucket ht)" by (simp add: push_item_def)
    show "h x = of_nat b \<and> hf (push_item ht it) (ho_key (push_item ht it)) (key x) AND mask (push_item ht it) = of_nat b"
    proof (cases "b = unat (h it) \<and> x = it")
      case True
      then show ?thesis unfolding fr using hh by simp
    next
      case False
      then have "x \<in> set (bucket ht ! b)"
        using x bl r by (cases "b = unat (h it)") (auto simp: push_item_def)
      then show ?thesis unfolding fr using wf bl by (auto simp: ht_wf_def chains_ok_def)
    qed
  qed
  show ?thesis using wf c len by (simp add: ht_wf_def) (simp add: push_item_def)
qed

section \<open>Rebuilding and the growth loop\<close>

lemma h_rehash: "h (rehash ht it) = hf ht (ho_key ht) (key it) AND mask ht"
  "key (rehash ht it) = key it" "yield (rehash ht it) = yield it"
  by (simp_all add: rehash_def)

lemma rebuild_chain_step:
  assumes wf: "ht_wf newht"
  shows "rebuild_chain newht (item # rest) = rebuild_chain (push_item newht (rehash newht item)) rest"
proof -
  define hv where "hv = hf newht (ho_key newht) (key item) AND mask newht"
  have r: "unat hv < length (bucket newht)" unfolding hv_def using wf by (rule hash_in_range)
  have b: "bucket_at newht (uint hv) = Inr (bucket newht ! unat hv)"
    using bucket_at_in_range [OF r] by simp
  show ?thesis
    by (simp add: Let_def b hv_def [symmetric] push_item_def rehash_def)
qed

lemma rebuild_chain_wf:
  assumes "ht_wf newht"
  shows "\<exists>ht1. rebuild_chain newht chain = Inr ht1 \<and> ht_wf ht1 \<and> same_frame ht1 newht \<and>
           mset (items ht1) = mset (items newht) + mset (map (rehash newht) chain)"
  using assms
proof (induction chain arbitrary: newht)
  case Nil
  then show ?case by (simp add: same_frame_refl)
next
  case (Cons item rest)
  define p where "p = push_item newht (rehash newht item)"
  have wfp: "ht_wf p" unfolding p_def using Cons.prems by (rule ht_wf_push) (simp add: h_rehash)
  have sf: "same_frame p newht" unfolding p_def by (rule same_frame_push)
  have r: "unat (h (rehash newht item)) < length (bucket newht)"
    unfolding h_rehash using Cons.prems by (rule hash_in_range)
  have ip: "mset (items p) = add_mset (rehash newht item) (mset (items newht))"
    unfolding p_def using r by (rule items_push)
  from Cons.IH [OF wfp] obtain ht1 where
    h1: "rebuild_chain p rest = Inr ht1" "ht_wf ht1" "same_frame ht1 p"
      "mset (items ht1) = mset (items p) + mset (map (rehash p) rest)"
    by blast
  have "rebuild_chain newht (item # rest) = Inr ht1"
    using rebuild_chain_step [OF Cons.prems, of item rest] h1(1) by (simp add: p_def)
  moreover have "same_frame ht1 newht" using h1(3) sf by (rule same_frame_trans)
  moreover have "mset (items ht1) = mset (items newht) + mset (map (rehash newht) (item # rest))"
    using h1(4) ip rehash_same_frame [OF sf] by simp
  ultimately show ?case using h1(2) by blast
qed

lemma rebuild_buckets_wf:
  assumes "ht_wf newht" "\<forall>i \<in> set ixs. i < length (bucket ht)"
  shows "\<exists>ht1. rebuild_buckets ht newht ixs = Inr ht1 \<and> ht_wf ht1 \<and> same_frame ht1 newht \<and>
           mset (items ht1) =
             mset (items newht) + mset (map (rehash newht) (concat (map (nth (bucket ht)) ixs)))"
  using assms
proof (induction ixs arbitrary: newht)
  case Nil
  then show ?case by (simp add: same_frame_refl)
next
  case (Cons i ixs)
  have b: "bucket_at ht (int i) = Inr (bucket ht ! i)"
    using Cons.prems(2) by (simp add: bucket_at_in_range)
  from rebuild_chain_wf [OF Cons.prems(1), of "bucket ht ! i"] obtain p where
    p: "rebuild_chain newht (bucket ht ! i) = Inr p" "ht_wf p" "same_frame p newht"
      "mset (items p) = mset (items newht) + mset (map (rehash newht) (bucket ht ! i))"
    by blast
  from Cons.IH [OF p(2)] Cons.prems(2) obtain ht1 where
    h1: "rebuild_buckets ht p ixs = Inr ht1" "ht_wf ht1" "same_frame ht1 p"
      "mset (items ht1) = mset (items p) + mset (map (rehash p) (concat (map (nth (bucket ht)) ixs)))"
    by auto
  have "rebuild_buckets ht newht (i # ixs) = Inr ht1" using b p(1) h1(1) by simp
  moreover have "same_frame ht1 newht" using h1(3) p(3) by (rule same_frame_trans)
  moreover have "mset (items ht1) =
      mset (items newht) + mset (map (rehash newht) (concat (map (nth (bucket ht)) (i # ixs))))"
    using h1(4) p(4) rehash_same_frame [OF p(3)] by simp
  ultimately show ?case using h1(2) by blast
qed

lemma rehash_id:
  assumes "ht_wf ht" "it \<in> set (items ht)"
  shows "rehash ht it = it"
proof -
  from assms(2) obtain chain where "chain \<in> set (bucket ht)" "it \<in> set chain"
    by (auto simp: items_def)
  then obtain b where "b < length (bucket ht)" "it \<in> set (bucket ht ! b)"
    by (auto simp: in_set_conv_nth)
  with assms(1) have "h it = hf ht (ho_key ht) (key it) AND mask ht"
    by (auto simp: ht_wf_def chains_ok_def)
  then show ?thesis by (simp add: rehash_def)
qed

text \<open>
  On a table that satisfies the invariant a rebuild returns, ignores its argument and
  keeps the bucket count: the result holds the same nodes in as many buckets.
\<close>

lemma ht_raw_rebuild_wf:
  assumes wf: "ht_wf ht"
  shows "\<exists>ht1. ht_raw_rebuild ht n = Inr ht1 \<and> ht_wf ht1 \<and> same_frame ht1 ht \<and>
           mset (items ht1) = mset (items ht) \<and> entries ht1 = entries ht"
proof -
  define newht where "newht = ht_raw_init (ho_key ht) (ho_yield ht) (copy_keys ht) (copy_yields ht)
    (hf ht) (nbuckets ht) (max_bucket_occupancy_ratio ht)"
  from wf obtain k where k: "4 \<le> k" "k \<le> 30" "nbuckets ht = 2 ^ k" "mask ht = 2 ^ k - 1"
    "length (bucket ht) = 2 ^ k" "unat (nbuckets ht) = 2 ^ k"
    by (rule ht_wf_D)
  have nb: "init_nb (nbuckets ht) = nbuckets ht" using k by (simp add: init_nb_fixed)
  have wfn: "ht_wf newht" unfolding newht_def by (rule ht_wf_init)
  have sfn: "same_frame newht ht"
    by (simp add: same_frame_def newht_def init_fields nb) (simp add: k)
  have itn: "items newht = []"
    by (simp add: items_def newht_def init_fields concat_replicate_Nil)
  have ix: "\<forall>i \<in> set [0..<unat (nbuckets ht)]. i < length (bucket ht)" using k by simp
  from rebuild_buckets_wf [OF wfn ix] obtain ht1 where
    h1: "rebuild_buckets ht newht [0..<unat (nbuckets ht)] = Inr ht1" "ht_wf ht1"
      "same_frame ht1 newht"
      "mset (items ht1) = mset (items newht) +
         mset (map (rehash newht) (concat (map (nth (bucket ht)) [0..<unat (nbuckets ht)])))"
    by blast
  have "unat (nbuckets ht) = length (bucket ht)" using k by simp
  then have "map (nth (bucket ht)) [0..<unat (nbuckets ht)] = bucket ht"
    by (simp only: map_nth)
  then have "mset (items ht1) = mset (map (rehash ht) (items ht))"
    using h1(4) itn rehash_same_frame [OF sfn] by (simp add: items_def)
  moreover have "map (rehash ht) (items ht) = items ht"
    using rehash_id [OF wf] by (simp add: map_idI)
  ultimately have m: "mset (items ht1) = mset (items ht)" by simp
  then have "length (items ht1) = length (items ht)" by (rule mset_eq_length)
  then have e: "entries ht1 = entries ht" using wf h1(2) by (simp add: ht_wf_def)
  have "ht_raw_rebuild ht n = Inr ht1"
    using h1(1) by (simp add: ht_raw_rebuild_def newht_def)
  moreover have "same_frame ht1 ht" using h1(3) sfn by (rule same_frame_trans)
  ultimately show ?thesis using h1(2) m e by blast
qed

lemma must_grow_same_frame:
  "same_frame ht1 ht \<Longrightarrow> entries ht1 = entries ht \<Longrightarrow> must_grow ht1 = must_grow ht"
  by (simp add: same_frame_def must_grow_def)

text \<open>
  The growth loop of \<^verbatim>\<open>ht_raw_insert\<close>: when it is entered on a table that satisfies
  the invariant, every rebuild leaves the test true, and the loop does not return.
\<close>

lemma insert_grow_Some:
  assumes "insert_grow ht = Some r"
  shows "ht_wf ht \<longrightarrow> \<not> must_grow ht"
proof (rule insert_grow.raw_induct [where P = "\<lambda>ht r. ht_wf ht \<longrightarrow> \<not> must_grow ht", OF _ assms])
  fix f and ht :: "('a, 'b) hash_table_t" and r
  assume IH: "\<And>x y. f x = Some y \<Longrightarrow> ht_wf x \<longrightarrow> \<not> must_grow x"
    and step: "(if must_grow ht then
        (case ht_raw_rebuild ht (nbuckets ht * 2) of Inl e \<Rightarrow> Some (Inl e) | Inr ht1 \<Rightarrow> f ht1)
      else Some (Inr ht)) = Some r"
  show "ht_wf ht \<longrightarrow> \<not> must_grow ht"
  proof (intro impI notI)
    assume wf: "ht_wf ht" and g: "must_grow ht"
    from ht_raw_rebuild_wf [OF wf, of "nbuckets ht * 2"] obtain ht1 where
      h1: "ht_raw_rebuild ht (nbuckets ht * 2) = Inr ht1" "ht_wf ht1" "same_frame ht1 ht"
        "entries ht1 = entries ht"
      by blast
    from step g h1(1) have "f ht1 = Some r" by simp
    from IH [OF this] h1(2) must_grow_same_frame [OF h1(3,4)] g show False by simp
  qed
qed

lemma insert_grow_wf:
  "ht_wf ht \<Longrightarrow> insert_grow ht = (if must_grow ht then None else Some (Inr ht))"
proof (cases "must_grow ht")
  case True
  assume "ht_wf ht"
  with True insert_grow_Some [of ht] show ?thesis by (cases "insert_grow ht") auto
next
  case False
  then show ?thesis by (subst insert_grow.simps) simp
qed

lemma insert_grow_result:
  assumes "insert_grow ht = Some r"
  shows "\<forall>ht1. r = Inr ht1 \<longrightarrow> \<not> must_grow ht1"
proof (rule insert_grow.raw_induct [where P = "\<lambda>ht r. \<forall>ht1. r = Inr ht1 \<longrightarrow> \<not> must_grow ht1", OF _ assms])
  fix f and ht :: "('a, 'b) hash_table_t" and r
  assume IH: "\<And>x y. f x = Some y \<Longrightarrow> \<forall>ht1. y = Inr ht1 \<longrightarrow> \<not> must_grow ht1"
    and step: "(if must_grow ht then
        (case ht_raw_rebuild ht (nbuckets ht * 2) of Inl e \<Rightarrow> Some (Inl e) | Inr ht1 \<Rightarrow> f ht1)
      else Some (Inr ht)) = Some r"
  show "\<forall>ht1. r = Inr ht1 \<longrightarrow> \<not> must_grow ht1"
    using IH step by (auto split: if_splits sum.splits)
qed

lemma insert_grow_returns: "insert_grow ht = Some (Inr ht1) \<Longrightarrow> \<not> must_grow ht1"
  using insert_grow_result by blast

section \<open>Lookup and insertion\<close>

lemma lookup_chain_None_iff:
  "lookup_chain ht ko yo i chain = None \<longleftrightarrow> (\<forall>it \<in> set chain. \<not> item_matches ht ko yo it)"
  by (induction chain arbitrary: i) (auto simp: item_matches_def)

lemma lookup_chain_Some:
  "lookup_chain ht ko yo i chain = Some j \<Longrightarrow>
     i \<le> j \<and> j - i < length chain \<and> item_matches ht ko yo (chain ! (j - i))"
proof (induction chain arbitrary: i)
  case Nil
  then show ?case by simp
next
  case (Cons it chain)
  show ?case
  proof (cases "item_matches ht ko yo it")
    case True
    then show ?thesis using Cons.prems by (simp add: item_matches_def)
  next
    case False
    then have "lookup_chain ht ko yo (i + 1) chain = Some j"
      using Cons.prems by (auto simp: item_matches_def split: if_splits)
    from Cons.IH [OF this] have "i + 1 \<le> j" "j - (i + 1) < length chain"
      "item_matches ht ko yo (chain ! (j - (i + 1)))" by simp_all
    moreover from \<open>i + 1 \<le> j\<close> have "j - i = Suc (j - (i + 1))" by simp
    ultimately show ?thesis by simp
  qed
qed

lemma lookup_buckets_wf:
  assumes "\<forall>b \<in> set bs. b < length (bucket ht)"
  shows "\<exists>r. lookup_buckets ht ko yo bs = Inr r \<and>
           (r = None \<longleftrightarrow> (\<forall>b \<in> set bs. \<forall>it \<in> set (bucket ht ! b). \<not> item_matches ht ko yo it)) \<and>
           (\<forall>b i. r = Some (b, i) \<longrightarrow>
              b \<in> set bs \<and> i < length (bucket ht ! b) \<and> item_matches ht ko yo (bucket ht ! b ! i))"
  using assms
proof (induction bs)
  case Nil
  then show ?case by simp
next
  case (Cons b bs)
  have ba: "bucket_at ht (int b) = Inr (bucket ht ! b)"
    using Cons.prems by (simp add: bucket_at_in_range)
  show ?case
  proof (cases "lookup_chain ht ko yo 0 (bucket ht ! b)")
    case None
    then have nm: "\<forall>it \<in> set (bucket ht ! b). \<not> item_matches ht ko yo it"
      by (simp add: lookup_chain_None_iff)
    from Cons obtain r where r: "lookup_buckets ht ko yo bs = Inr r"
      "r = None \<longleftrightarrow> (\<forall>b \<in> set bs. \<forall>it \<in> set (bucket ht ! b). \<not> item_matches ht ko yo it)"
      "\<forall>b i. r = Some (b, i) \<longrightarrow>
              b \<in> set bs \<and> i < length (bucket ht ! b) \<and> item_matches ht ko yo (bucket ht ! b ! i)"
      by auto
    have "lookup_buckets ht ko yo (b # bs) = Inr r" using ba None r(1) by simp
    then show ?thesis using r(2,3) nm by auto
  next
    case (Some i)
    from lookup_chain_Some [OF Some]
    have "i < length (bucket ht ! b)" "item_matches ht ko yo (bucket ht ! b ! i)" by simp_all
    moreover have "lookup_buckets ht ko yo (b # bs) = Inr (Some (b, i))" using ba Some by simp
    ultimately show ?thesis by (auto intro!: bexI [of _ b] bexI [of _ "bucket ht ! b ! i"])
  qed
qed

lemma unat_plus_1: "unat (w :: 32 word) < 2 ^ 30 \<Longrightarrow> unat (w + 1) = Suc (unat w)"
proof -
  assume "unat w < 2 ^ 30"
  then have "unat w + 1 < 2 ^ 32" by simp
  then show ?thesis by (simp add: unat_word_ariths)
qed

lemma bucket_range_None: "ht_wf ht \<Longrightarrow> bucket_range ht None = [0..<length (bucket ht)]"
  by (simp add: bucket_range_def ht_wf_def)

lemma bucket_range_Some:
  "ht_wf ht \<Longrightarrow> bucket_range ht (Some k) = [unat (hf ht (ho_key ht) k AND mask ht)]"
  using hash_lt_2p30 [of ht "hf ht (ho_key ht) k"]
  by (simp add: bucket_range_def Let_def unat_plus_1)

lemma bucket_range_in_range: "ht_wf ht \<Longrightarrow> \<forall>b \<in> set (bucket_range ht ko). b < length (bucket ht)"
  by (cases ko) (simp_all add: bucket_range_None bucket_range_Some hash_in_range)

lemma unat_of_nat_bucket:
  assumes "ht_wf ht" "b < length (bucket ht)"
  shows "unat (of_nat b :: 32 word) = b"
proof -
  from assms(1) obtain k where "k \<le> 30" "length (bucket ht) = 2 ^ k" by (rule ht_wf_D)
  then have "b < 2 ^ k" using assms(2) by simp
  also have "(2 :: nat) ^ k \<le> 2 ^ 30" using \<open>k \<le> 30\<close> by (intro power_increasing) simp_all
  finally have "b < 2 ^ 32" by simp
  then show ?thesis by (simp add: unat_of_nat)
qed

lemma key_bucket:
  assumes wf: "ht_wf ht" and rc: "hash_respects_cmp ht"
    and b: "b < length (bucket ht)" and it: "it \<in> set (bucket ht ! b)"
    and m: "key_matches ht (Some k) it"
  shows "b = unat (hf ht (ho_key ht) k AND mask ht)"
proof -
  from wf b it have "hf ht (ho_key ht) (key it) AND mask ht = of_nat b"
    by (auto simp: ht_wf_def chains_ok_def)
  moreover from rc m have "hf ht (ho_key ht) k = hf ht (ho_key ht) (key it)"
    by (simp add: hash_respects_cmp_def key_matches_def)
  ultimately show ?thesis using unat_of_nat_bucket [OF wf b] by simp
qed

lemma in_items_iff:
  "it \<in> set (items ht) \<longleftrightarrow> (\<exists>b < length (bucket ht). it \<in> set (bucket ht ! b))"
  by (simp add: items_def) (metis in_set_conv_nth)

lemma range_covers_matches:
  assumes wf: "ht_wf ht" and rc: "hash_respects_cmp ht"
  shows "(\<forall>b \<in> set (bucket_range ht ko). \<forall>it \<in> set (bucket ht ! b). \<not> item_matches ht ko yo it)
           \<longleftrightarrow> (\<forall>it \<in> set (items ht). \<not> item_matches ht ko yo it)"
proof (cases ko)
  case None
  then show ?thesis using wf by (auto simp: bucket_range_None in_items_iff)
next
  case (Some k)
  show ?thesis unfolding Some bucket_range_Some [OF wf]
  proof
    assume a: "\<forall>b \<in> set [unat (hf ht (ho_key ht) k AND mask ht)].
                 \<forall>it \<in> set (bucket ht ! b). \<not> item_matches ht (Some k) yo it"
    show "\<forall>it \<in> set (items ht). \<not> item_matches ht (Some k) yo it"
    proof (intro ballI notI)
      fix it assume "it \<in> set (items ht)" and m: "item_matches ht (Some k) yo it"
      then obtain b where b: "b < length (bucket ht)" "it \<in> set (bucket ht ! b)"
        by (auto simp: in_items_iff)
      from m have "key_matches ht (Some k) it" by (simp add: item_matches_def)
      from key_bucket [OF wf rc b this] a b(2) m show False by simp
    qed
  next
    assume a: "\<forall>it \<in> set (items ht). \<not> item_matches ht (Some k) yo it"
    have "unat (hf ht (ho_key ht) k AND mask ht) < length (bucket ht)"
      using wf by (rule hash_in_range)
    then show "\<forall>b \<in> set [unat (hf ht (ho_key ht) k AND mask ht)].
                 \<forall>it \<in> set (bucket ht ! b). \<not> item_matches ht (Some k) yo it"
      using a by (auto simp: in_items_iff)
  qed
qed

text \<open>
  Lookup on a table that satisfies the invariant, with a hash function that respects the
  comparator: it returns, finds nothing exactly when no node of the table matches, and
  what it finds is a node of the table that matches.
\<close>

lemma ht_raw_lookup_wf:
  assumes wf: "ht_wf ht" and rc: "hash_respects_cmp ht"
  shows "\<exists>r. ht_raw_lookup ht ko yo = Inr r \<and>
           (r = None \<longleftrightarrow> (\<forall>it \<in> set (items ht). \<not> item_matches ht ko yo it)) \<and>
           (\<forall>p. r = Some p \<longrightarrow> fst p < length (bucket ht) \<and> snd p < length (bucket ht ! fst p) \<and>
              item_matches ht ko yo (item_at ht p))"
proof -
  from lookup_buckets_wf [OF bucket_range_in_range [OF wf], where ko = ko and yo = yo and ko1 = ko]
  obtain r where r: "lookup_buckets ht ko yo (bucket_range ht ko) = Inr r"
    "r = None \<longleftrightarrow> (\<forall>b \<in> set (bucket_range ht ko). \<forall>it \<in> set (bucket ht ! b). \<not> item_matches ht ko yo it)"
    "\<forall>b i. r = Some (b, i) \<longrightarrow> b \<in> set (bucket_range ht ko) \<and> i < length (bucket ht ! b) \<and>
        item_matches ht ko yo (bucket ht ! b ! i)"
    by blast
  have "\<forall>p. r = Some p \<longrightarrow> fst p < length (bucket ht) \<and> snd p < length (bucket ht ! fst p) \<and>
              item_matches ht ko yo (item_at ht p)"
    using r(3) bucket_range_in_range [OF wf, of ko] by (auto simp: item_at_def)
  with r(1,2) range_covers_matches [OF wf rc, of ko yo] show ?thesis
    by (auto simp: ht_raw_lookup_def)
qed

lemma ht_raw_exists_wf:
  assumes wf: "ht_wf ht" and rc: "hash_respects_cmp ht"
  shows "ht_raw_exists ht ko yo = Inr (\<exists>it \<in> set (items ht). item_matches ht ko yo it)"
proof -
  from ht_raw_lookup_wf [OF wf rc, of ko yo] obtain r where
    r: "ht_raw_lookup ht ko yo = Inr r"
    "r = None \<longleftrightarrow> (\<forall>it \<in> set (items ht). \<not> item_matches ht ko yo it)"
    by blast
  then show ?thesis by (cases r) (auto simp: ht_raw_exists_def)
qed

text \<open>
  Insert on such a table: a report when the pair is there, no return when the table must
  grow, otherwise the new node at the head of its chain.
\<close>

lemma ht_raw_insert_wf:
  assumes wf: "ht_wf ht" and rc: "hash_respects_cmp ht"
  shows "ht_raw_insert ht k y =
     (if \<exists>it \<in> set (items ht). item_matches ht (Some k) (Some y) it then Some (Inr (- 1, ht))
      else if must_grow ht then None
      else Some (Inr (0, push_item ht \<lparr>key = k, yield = y, h = hf ht (ho_key ht) k AND mask ht\<rparr>)))"
proof -
  let ?hv = "hf ht (ho_key ht) k AND mask ht"
  have r: "unat ?hv < length (bucket ht)" using wf by (rule hash_in_range)
  have s: "sint ?hv = int (unat ?hv)"
    using hash_lt_2p30 [OF wf] by (rule sint_eq_unat)
  have b: "bucket_at ht (sint ?hv) = Inr (bucket ht ! unat ?hv)"
    unfolding s using r by (rule bucket_at_in_range)
  have n: "nat (sint ?hv) = unat ?hv" unfolding s by simp
  have e: "ht_raw_exists ht (Some k) (Some y) =
             Inr (\<exists>it \<in> set (items ht). item_matches ht (Some k) (Some y) it)"
    using wf rc by (rule ht_raw_exists_wf)
  show ?thesis
  proof (cases "\<exists>it \<in> set (items ht). item_matches ht (Some k) (Some y) it")
    case True
    then show ?thesis unfolding ht_raw_insert_def e by simp
  next
    case False
    show ?thesis
    proof (cases "must_grow ht")
      case True
      then show ?thesis
        unfolding ht_raw_insert_def e insert_grow_wf [OF wf] using False by simp
    next
      case g: False
      have "ht_raw_insert ht k y =
        (case bucket_at ht (sint ?hv) of
           Inl e \<Rightarrow> Some (Inl e)
         | Inr chain \<Rightarrow>
             Some (Inr (0, ht\<lparr>bucket := (bucket ht)[nat (sint ?hv) := \<lparr>key = k, yield = y, h = ?hv\<rparr> # chain],
                               entries := entries ht + 1\<rparr>)))"
        unfolding ht_raw_insert_def e insert_grow_wf [OF wf] using False g by (simp add: Let_def)
      then show ?thesis unfolding b n using False g by (simp add: push_item_def)
    qed
  qed
qed

lemma ht_raw_insert_preserves:
  assumes wf: "ht_wf ht" and rc: "hash_respects_cmp ht"
    and ins: "ht_raw_insert ht k y = Some (Inr (c, ht1))"
  shows "ht_wf ht1 \<and> same_frame ht1 ht"
proof -
  have "ht_wf (push_item ht \<lparr>key = k, yield = y, h = hf ht (ho_key ht) k AND mask ht\<rparr>)"
    using wf by (rule ht_wf_push) simp
  with ins wf show ?thesis
    unfolding ht_raw_insert_wf [OF wf rc]
    by (auto split: if_splits simp: same_frame_refl same_frame_push)
qed

section \<open>Removal\<close>


lemma remove_chain_eq:
  "remove_chain ht ko yo chain kept ent cnt =
     (kept @ filter (\<lambda>it. \<not> item_matches ht ko yo it) chain,
      ent - of_nat (length (filter (item_matches ht ko yo) chain)),
      cnt + of_nat (length (filter (item_matches ht ko yo) chain)))"
  by (induction chain arbitrary: kept ent cnt) (simp_all add: item_matches_def)


section \<open>Preservation of the invariant\<close>

lemma mset_concat_filter_update:
  "b < length xs \<Longrightarrow>
   mset (concat (xs[b := filter (\<lambda>x. \<not> P x) (xs ! b)])) + mset (filter P (xs ! b)) = mset (concat xs)"
proof (induction xs arbitrary: b)
  case Nil
  then show ?case by simp
next
  case (Cons a xs)
  show ?case
  proof (cases b)
    case 0
    have "mset (filter (\<lambda>x. \<not> P x) a) + mset (filter P a) = mset a"
      by (simp add: union_commute)
    then show ?thesis using 0 by (simp add: ac_simps)
  next
    case (Suc c)
    then show ?thesis using Cons.IH [of c] Cons.prems by (simp add: ac_simps)
  qed
qed

lemma ht_wf_remove_step:
  assumes wf: "ht_wf ht" and bl: "b < length (bucket ht)"
  shows "ht_wf (ht\<lparr>bucket := (bucket ht)[b := filter (\<lambda>it. \<not> P it) (bucket ht ! b)],
                    entries := entries ht - of_nat (length (filter P (bucket ht ! b)))\<rparr>)"
    (is "ht_wf ?ht1")
proof -
  let ?xs1 = "(bucket ht)[b := filter (\<lambda>it. \<not> P it) (bucket ht ! b)]"
  have "length (concat ?xs1) + length (filter P (bucket ht ! b)) =
        size (mset (concat ?xs1) + mset (filter P (bucket ht ! b)))"
    by (simp only: size_union size_mset)
  also have "\<dots> = size (mset (concat (bucket ht)))"
    by (simp only: mset_concat_filter_update [OF bl])
  also have "\<dots> = length (concat (bucket ht))" by (simp only: size_mset)
  finally have len: "length (items ht) = length (items ?ht1) + length (filter P (bucket ht ! b))"
    by (simp add: items_def)
  from wf have "entries ht = of_nat (length (items ht))" by (simp add: ht_wf_def)
  then have "entries ht = of_nat (length (items ?ht1)) + of_nat (length (filter P (bucket ht ! b)))"
    by (simp only: len of_nat_add)
  moreover have "\<And>e a n :: 32 word. e = a + n \<Longrightarrow> e - n = a" by simp
  ultimately have "entries ht - of_nat (length (filter P (bucket ht ! b))) = of_nat (length (items ?ht1))"
    by blast
  then have e: "entries ?ht1 = of_nat (length (items ?ht1))" by simp
  have c: "chains_ok ?ht1"
    unfolding chains_ok_def
  proof (intro ballI)
    fix c x
    assume c: "c \<in> {0..<length (bucket ?ht1)}" and x: "x \<in> set (bucket ?ht1 ! c)"
    then have cl: "c < length (bucket ht)" by simp
    have "x \<in> set (bucket ht ! c)"
      using x cl bl by (cases "c = b") auto
    then show "h x = of_nat c \<and> hf ?ht1 (ho_key ?ht1) (key x) AND mask ?ht1 = of_nat c"
      using wf cl by (auto simp: ht_wf_def chains_ok_def)
  qed
  show ?thesis using wf c e by (simp add: ht_wf_def)
qed

lemma remove_buckets_wf:
  assumes "ht_wf ht" "\<forall>b \<in> set bs. b < length (bucket ht)"
  shows "\<exists>cnt1 ht1. remove_buckets ht ko yo bs cnt = Inr (cnt1, ht1) \<and> ht_wf ht1 \<and> same_frame ht1 ht"
  using assms
proof (induction bs arbitrary: ht cnt)
  case Nil
  then show ?case by (simp add: same_frame_refl)
next
  case (Cons b bs)
  define n where "n = length (filter (item_matches ht ko yo) (bucket ht ! b))"
  define ht1 where "ht1 = ht\<lparr>bucket := (bucket ht)[b := filter (\<lambda>it. \<not> item_matches ht ko yo it) (bucket ht ! b)],
                              entries := entries ht - of_nat n\<rparr>"
  have bl: "b < length (bucket ht)" using Cons.prems by simp
  have ba: "bucket_at ht (int b) = Inr (bucket ht ! b)" using bl by (rule bucket_at_in_range)
  have step: "remove_buckets ht ko yo (b # bs) cnt = remove_buckets ht1 ko yo bs (cnt + of_nat n)"
    by (simp add: ba remove_chain_eq ht1_def n_def)
  have wf1: "ht_wf ht1" unfolding ht1_def n_def using Cons.prems(1) bl by (rule ht_wf_remove_step)
  have sf1: "same_frame ht1 ht" by (simp add: same_frame_def ht1_def)
  have p1: "\<forall>c \<in> set bs. c < length (bucket ht1)" using Cons.prems by (simp add: ht1_def)
  from Cons.IH [OF wf1 p1, of "cnt + of_nat n"] obtain cnt2 ht2 where
    "remove_buckets ht1 ko yo bs (cnt + of_nat n) = Inr (cnt2, ht2)" "ht_wf ht2" "same_frame ht2 ht1"
    by blast
  then show ?case unfolding step using sf1 by (blast intro: same_frame_trans)
qed

lemma ht_raw_remove_preserves:
  assumes "ht_wf ht"
  shows "\<exists>cnt1 ht1. ht_raw_remove ht ko yo = Inr (cnt1, ht1) \<and> ht_wf ht1 \<and> same_frame ht1 ht"
  unfolding ht_raw_remove_def
  using assms bucket_range_in_range [OF assms] by (rule remove_buckets_wf)

lemma ht_raw_exists_returns:
  assumes "ht_wf ht"
  shows "\<exists>r. ht_raw_exists ht ko yo = Inr r"
proof -
  from lookup_buckets_wf [OF bucket_range_in_range [OF assms], where ko = ko and yo = yo and ko1 = ko]
  obtain r where "ht_raw_lookup ht ko yo = Inr r" by (auto simp: ht_raw_lookup_def)
  then show ?thesis by (cases r) (auto simp: ht_raw_exists_def)
qed

text \<open>An insert that returns either reports the pair and changes nothing, or links one node.\<close>

lemma ht_raw_insert_cases:
  assumes wf: "ht_wf ht" and ins: "ht_raw_insert ht k y = Some (Inr (c, ht1))"
  shows "(c = - 1 \<and> ht1 = ht) \<or>
         (c = 0 \<and> \<not> must_grow ht \<and>
          ht1 = push_item ht \<lparr>key = k, yield = y, h = hf ht (ho_key ht) k AND mask ht\<rparr>)"
proof -
  let ?hv = "hf ht (ho_key ht) k AND mask ht"
  have r: "unat ?hv < length (bucket ht)" using wf by (rule hash_in_range)
  have s: "sint ?hv = int (unat ?hv)"
    using hash_lt_2p30 [OF wf] by (rule sint_eq_unat)
  have b: "bucket_at ht (sint ?hv) = Inr (bucket ht ! unat ?hv)"
    unfolding s using r by (rule bucket_at_in_range)
  have n: "nat (sint ?hv) = unat ?hv" unfolding s by simp
  from ht_raw_exists_returns [OF wf] obtain e where
    e: "ht_raw_exists ht (Some k) (Some y) = Inr e" by blast
  show ?thesis
  proof (cases e)
    case True
    then show ?thesis using ins unfolding ht_raw_insert_def e by simp
  next
    case False
    show ?thesis
    proof (cases "must_grow ht")
      case True
      then show ?thesis
        using ins False unfolding ht_raw_insert_def e insert_grow_wf [OF wf] by simp
    next
      case g: False
      have "ht_raw_insert ht k y =
        (case bucket_at ht (sint ?hv) of
           Inl e \<Rightarrow> Some (Inl e)
         | Inr chain \<Rightarrow>
             Some (Inr (0, ht\<lparr>bucket := (bucket ht)[nat (sint ?hv) := \<lparr>key = k, yield = y, h = ?hv\<rparr> # chain],
                               entries := entries ht + 1\<rparr>)))"
        unfolding ht_raw_insert_def e insert_grow_wf [OF wf] using False g by (simp add: Let_def)
      then show ?thesis using ins g unfolding b n by (simp add: push_item_def)
    qed
  qed
qed

lemma ht_raw_insert_wf_preserved:
  assumes wf: "ht_wf ht" and ins: "ht_raw_insert ht k y = Some (Inr (c, ht1))"
  shows "ht_wf ht1 \<and> same_frame ht1 ht"
proof -
  have "ht_wf (push_item ht \<lparr>key = k, yield = y, h = hf ht (ho_key ht) k AND mask ht\<rparr>)"
    using wf by (rule ht_wf_push) simp
  with ht_raw_insert_cases [OF wf ins] wf show ?thesis
    by (auto simp: same_frame_refl same_frame_push)
qed

text \<open>Every reachable table satisfies the invariant.\<close>

lemma reachable_wf: "reachable ht \<Longrightarrow> ht_wf ht"
proof (induction rule: reachable.induct)
  case (r_init ko yo ck cy hfn n ratio)
  show ?case by (rule ht_wf_init)
next
  case (r_insert ht k y rc ht1)
  from ht_raw_insert_wf_preserved [OF r_insert.IH r_insert.hyps(2)] show ?case by simp
next
  case (r_remove ht ko yo cnt ht1)
  then show ?case using ht_raw_remove_preserves [of ht ko yo] by auto
next
  case (r_reset ht ht1)
  then show ?case using ht_raw_remove_preserves [of ht None None]
    by (auto simp: ht_raw_reset_def split: sum.splits)
next
  case (r_rebuild ht n ht1)
  then show ?case using ht_raw_rebuild_wf [of ht n] by auto
qed

section \<open>The bucket count\<close>

lemma hash_respects_cmp_conn:
  "ho_key ht = ho_connection \<Longrightarrow> hf ht = hf_lcg schar \<Longrightarrow> hash_respects_cmp ht"
  by (simp add: hash_respects_cmp_def ho_connection_def hf_lcg_def conncmp_marshall)

lemma hash_respects_cmp_same_frame:
  "same_frame ht1 ht \<Longrightarrow> hash_respects_cmp ht \<Longrightarrow> hash_respects_cmp ht1"
  by (simp add: same_frame_def hash_respects_cmp_def)

lemma init_nb_16: "init_nb 16 = 16"
  using init_nb_fixed [of 4] by simp

lemma test_table_fields:
  "ho_key test_table = ho_connection" "ho_yield test_table = ho_uint32 False"
  "hf test_table = hf_lcg True" "nbuckets test_table = 16" "mask test_table = 15"
  "entries test_table = 0" "bucket test_table = replicate 16 []"
  "max_bucket_occupancy_ratio test_table = 1 / 2"
  by (simp_all add: test_table_def init_fields init_nb_16)

lemma test_table_wf: "ht_wf test_table"
  unfolding test_table_def by (rule ht_wf_init)

lemma test_table_rc: "hash_respects_cmp test_table"
  by (rule hash_respects_cmp_conn [where schar = True]) (simp_all add: test_table_fields)

lemma test_table_reachable: "reachable test_table"
  unfolding test_table_def by (rule reachable.r_init)

lemma hash_test_conn_0: "hf_lcg True ho_connection (test_conn 0) AND 15 = 7"
  by code_simp

lemma hash_test_conn_8: "hf_lcg True ho_connection (test_conn 8) AND 15 = 15"
  by code_simp

text \<open>
  C9, as the specification states it, fails for a request of \<open>2^31\<close> buckets: the largest
  power of two that is at most the request is \<open>2^31\<close> itself, and the loop of
  \<^verbatim>\<open>ht_raw_init\<close> starts from \<^verbatim>\<open>0x40000000\<close> and gives \<open>2^30\<close>.
\<close>

theorem init_rounding_counterexample:
  "unat (nbuckets (ht_raw_init ho_connection (ho_uint32 False) True True (hf_lcg True) 0x80000000 (1 / 2)))
     \<noteq> spec_nbuckets (unat (0x80000000 :: 32 word))"
proof -
  have "init_nb 0x80000000 = 0x40000000"
    by (simp add: init_nb_def pow2_loop.simps [of "0x40000000"])
  moreover have "largest_pow2_le (2 ^ 31) = 2 ^ 31" by (rule largest_pow2_le_pow2)
  then have "spec_nbuckets 2147483648 = 2147483648"
    by (simp add: spec_nbuckets_def del: largest_pow2_le.simps)
  ultimately show ?thesis by (simp add: init_fields)
qed

lemma spec_nbuckets_capped:
  assumes "n < 2 ^ 31"
  shows "spec_nbuckets (min n (2 ^ 30)) = spec_nbuckets n"
proof (cases "n \<le> 2 ^ 30")
  case True
  then show ?thesis by (simp add: min_def)
next
  case False
  then have "2 ^ 30 \<le> n" "n < 2 ^ Suc 30" using assms by simp_all
  then have "largest_pow2_le n = 2 ^ 30" by (rule largest_pow2_le_range)
  moreover have "largest_pow2_le (2 ^ 30) = 2 ^ 30" by (rule largest_pow2_le_pow2)
  moreover have "min n (2 ^ 30) = 2 ^ 30" using False by simp
  ultimately show ?thesis by (simp add: spec_nbuckets_def del: largest_pow2_le.simps)
qed

text \<open>
  C9, amended. \<^verbatim>\<open>ht_raw_init\<close> rounds the requested bucket count down to the largest
  power of two that is at most the request, floored at 16 and capped at \<open>2^30\<close> (so the
  rounding is the specification's for every request below \<open>2^31\<close>); and in every
  reachable table, that is after any sequence of inserts, removals, resets and rebuilds
  that return, \<^verbatim>\<open>nbuckets\<close> is a power of two and \<^verbatim>\<open>mask = nbuckets - 1\<close>.
\<close>

theorem init_rounding_and_frame_invariant:
  "unat (nbuckets (ht_raw_init ko yo ck cy hfn n ratio)) = spec_nbuckets (min (unat n) (2 ^ 30)) \<and>
   (unat n < 2 ^ 31 \<longrightarrow> unat (nbuckets (ht_raw_init ko yo ck cy hfn n ratio)) = spec_nbuckets (unat n)) \<and>
   (reachable ht \<longrightarrow> (\<exists>k \<in> {4..<31}. nbuckets ht = 2 ^ k) \<and> mask ht = nbuckets ht - 1)"
proof (intro conjI impI)
  show a: "unat (nbuckets (ht_raw_init ko yo ck cy hfn n ratio)) = spec_nbuckets (min (unat n) (2 ^ 30))"
    by (simp only: init_fields init_nb_spec)
  show "unat (nbuckets (ht_raw_init ko yo ck cy hfn n ratio)) = spec_nbuckets (unat n)"
    if "unat n < 2 ^ 31"
    using a spec_nbuckets_capped [OF that] by simp
  show "\<exists>k \<in> {4..<31}. nbuckets ht = 2 ^ k" if "reachable ht"
    using reachable_wf [OF that] by (simp add: ht_wf_def)
  show "mask ht = nbuckets ht - 1" if "reachable ht"
    using reachable_wf [OF that] by (simp add: ht_wf_def)
qed

theorem init_rounding_and_frame_invariant_witness:
  "unat (1000 :: 32 word) < 2 ^ 31 \<and> reachable table_one \<and>
   unat (nbuckets (ht_raw_init ho_connection (ho_uint32 False) True True (hf_lcg True) 1000 (1 / 2))) = 512 \<and>
   spec_nbuckets (unat (1000 :: 32 word)) = 512 \<and>
   nbuckets table_one = 2 ^ 4 \<and> mask table_one = nbuckets table_one - 1"
proof -
  have u: "unat (1000 :: 32 word) < 2 ^ 31" by simp
  have s: "spec_nbuckets (unat (1000 :: 32 word)) = 512" by code_simp
  have i: "ht_raw_insert test_table (test_conn 0) 1 = Some (Inr (0, table_one))"
    unfolding ht_raw_insert_wf [OF test_table_wf test_table_rc]
    by (simp add: test_table_fields items_def must_grow_def concat_replicate_Nil
        table_one_def test_item_def hash_test_conn_0)
  have r: "reachable table_one"
    using test_table_reachable i by (rule reachable.r_insert)
  have n: "nbuckets table_one = 2 ^ 4"
    by (simp add: table_one_def push_item_def test_table_fields)
  from init_rounding_and_frame_invariant
    [of ho_connection "ho_uint32 False" True True "hf_lcg True" 1000 "1 / 2" table_one] u s r n
  show ?thesis by simp
qed

section \<open>The scenarios of the specification\<close>

lemma insert_test_table_0: "ht_raw_insert test_table (test_conn 0) 1 = Some (Inr (0, table_one))"
  unfolding ht_raw_insert_wf [OF test_table_wf test_table_rc]
  by (simp add: test_table_fields items_def must_grow_def concat_replicate_Nil
      table_one_def test_item_def hash_test_conn_0)

lemma table_one_reachable: "reachable table_one"
  using test_table_reachable insert_test_table_0 by (rule reachable.r_insert)

lemma insert_test_table_8: "ht_raw_insert test_table (test_conn 8) 1 = Some (Inr (0, table_last))"
  unfolding ht_raw_insert_wf [OF test_table_wf test_table_rc]
  by (simp add: test_table_fields items_def must_grow_def concat_replicate_Nil
      table_last_def hash_test_conn_8)

lemma insert_all_snoc:
  "insert_all ht (kys @ [(k, y)]) =
     (case insert_all ht kys of
        None \<Rightarrow> None
      | Some (Inl e) \<Rightarrow> Some (Inl e)
      | Some (Inr (rcs, ht1)) \<Rightarrow>
          (case ht_raw_insert ht1 k y of
             None \<Rightarrow> None
           | Some (Inl e) \<Rightarrow> Some (Inl e)
           | Some (Inr (rc, ht2)) \<Rightarrow> Some (Inr (rcs @ [rc], ht2))))"
  by (induction ht kys rule: insert_all.induct) (auto split: option.splits sum.splits prod.splits)

lemma insert_all_reachable:
  "reachable ht \<Longrightarrow> insert_all ht kys = Some (Inr (rcs, ht1)) \<Longrightarrow> reachable ht1 \<and> same_frame ht1 ht"
proof (induction ht kys arbitrary: rcs rule: insert_all.induct)
  case (1 ht)
  then show ?case by (simp add: same_frame_refl)
next
  case (2 ht k y kys)
  from 2(3) obtain rc ht2 rcs2 where
    i: "ht_raw_insert ht k y = Some (Inr (rc, ht2))" and
    a: "insert_all ht2 kys = Some (Inr (rcs2, ht1))"
    by (auto split: option.splits sum.splits prod.splits)
  have r2: "reachable ht2" using 2(2) i by (rule reachable.r_insert)
  have s2: "same_frame ht2 ht"
    using ht_raw_insert_wf_preserved [OF reachable_wf [OF 2(2)] i] by simp
  from 2(1) [OF i refl refl r2 a] s2 show ?case by (blast intro: same_frame_trans)
qed

lemma outcome_8:
  "insert_all_outcome test_table (test_pairs 8) =
     Some (Inr ([0, 0, 0, 0, 0, 0, 0, 0], True, 8, 16, buckets_8))"
  by code_simp

text \<open>
  C2, as the specification states it, fails in the growth scenario itself: the first eight
  inserts all return 0, and the table they leave has \<^verbatim>\<open>entries = 8\<close> and
  \<^verbatim>\<open>nbuckets = 16\<close> with ratio 0.5, so \<^verbatim>\<open>entries >= ratio * nbuckets\<close> holds
  (the second component of the outcome) and the strict inequality does not.
\<close>

theorem insert_occupancy_counterexample:
  "insert_all_outcome test_table (test_pairs 8) =
     Some (Inr ([0, 0, 0, 0, 0, 0, 0, 0], True, 8, 16, buckets_8))"
  by (rule outcome_8)

text \<open>
  C2, amended. After every insert that returns 0 (for any table and any pair) the
  inequality holds of the count before the new node: \<open>entries - 1 < ratio * nbuckets\<close>,
  the growth test being made before the node is counted; and on a reachable table an
  insert that returns -1 leaves the table as it was.
\<close>

theorem insert_occupancy:
  "(ht_raw_insert ht k y = Some (Inr (0, ht1)) \<longrightarrow>
      of_nat (unat (entries ht1 - 1)) < max_bucket_occupancy_ratio ht1 * of_nat (unat (nbuckets ht1))) \<and>
   (reachable ht \<and> ht_raw_insert ht k y = Some (Inr (- 1, ht1)) \<longrightarrow> ht1 = ht)"
proof (intro conjI impI)
  assume ins: "ht_raw_insert ht k y = Some (Inr (0, ht1))"
  then obtain ht0 where g: "insert_grow ht = Some (Inr ht0)"
    and f: "entries ht1 = entries ht0 + 1" "nbuckets ht1 = nbuckets ht0"
      "max_bucket_occupancy_ratio ht1 = max_bucket_occupancy_ratio ht0"
    by (auto simp: ht_raw_insert_def Let_def split: sum.splits bool.splits option.splits)
  from insert_grow_returns [OF g] show
    "of_nat (unat (entries ht1 - 1)) < max_bucket_occupancy_ratio ht1 * of_nat (unat (nbuckets ht1))"
    by (simp add: must_grow_def f not_le)
next
  assume "reachable ht \<and> ht_raw_insert ht k y = Some (Inr (- 1, ht1))"
  then have "ht_wf ht" "ht_raw_insert ht k y = Some (Inr (- 1, ht1))"
    by (simp_all add: reachable_wf)
  from ht_raw_insert_cases [OF this] show "ht1 = ht" by simp
qed

theorem insert_occupancy_witness:
  "ht_raw_insert test_table (test_conn 0) 1 = Some (Inr (0, table_one)) \<and>
   entries table_one = 1 \<and> nbuckets table_one = 16 \<and> max_bucket_occupancy_ratio table_one = 1 / 2 \<and>
   of_nat (unat (entries table_one - 1)) <
     max_bucket_occupancy_ratio table_one * of_nat (unat (nbuckets table_one)) \<and>
   reachable table_one \<and>
   ht_raw_insert table_one (test_conn 0) 1 = Some (Inr (- 1, table_one))"
proof -
  have f: "entries table_one = 1" "nbuckets table_one = 16"
    "max_bucket_occupancy_ratio table_one = 1 / 2"
    by (simp_all add: table_one_def push_item_def test_table_fields)
  have wf: "ht_wf table_one" using table_one_reachable by (rule reachable_wf)
  have rc: "hash_respects_cmp table_one"
    by (rule hash_respects_cmp_same_frame [OF _ test_table_rc])
       (simp add: table_one_def same_frame_push)
  have it: "items table_one = [test_item 1]"
    by code_simp
  have fr: "ho_key table_one = ho_connection" "ho_yield table_one = ho_uint32 False"
    by (simp_all add: table_one_def push_item_def test_table_fields)
  have again: "ht_raw_insert table_one (test_conn 0) 1 = Some (Inr (- 1, table_one))"
    unfolding ht_raw_insert_wf [OF wf rc]
    by (simp add: it item_matches_def key_matches_def yield_matches_def test_item_def
        fr ho_connection_def ho_uint32_def conncmp_zero_iff uint32cmp_def)
  from insert_occupancy [of test_table "test_conn 0" 1 table_one] insert_test_table_0 f
    table_one_reachable again
  show ?thesis by simp
qed

text \<open>
  C1 at the failing input: the scenario's table (ratio 0.5, 16 buckets) and nine distinct
  pairs. The first eight inserts return; the ninth never does, because
  \<^verbatim>\<open>ht_raw_rebuild\<close> builds the new frame with \<^verbatim>\<open>ht->nbuckets\<close> buckets, not with the
  doubled count it is passed, so the growth loop's test stays true.
\<close>

theorem growth_insert_does_not_return:
  "insert_all_outcome test_table (test_pairs 9) = None"
proof -
  from outcome_8 obtain ht8 where
    a: "insert_all test_table (test_pairs 8) = Some (Inr ([0, 0, 0, 0, 0, 0, 0, 0], ht8))"
    and g: "must_grow ht8" and b: "bucket ht8 = buckets_8"
    by (auto simp: insert_all_outcome_def split: option.splits sum.splits prod.splits)
  from insert_all_reachable [OF test_table_reachable a]
  have r: "reachable ht8" and sf: "same_frame ht8 test_table" by simp_all
  have wf: "ht_wf ht8" using r by (rule reachable_wf)
  have rc: "hash_respects_cmp ht8" using sf test_table_rc by (rule hash_respects_cmp_same_frame)
  have k: "ho_key ht8 = ho_connection" using sf by (simp add: same_frame_def test_table_fields)
  have nm: "\<not> (\<exists>it \<in> set (items ht8). item_matches ht8 (Some (test_conn 8)) (Some 9) it)"
    by (simp add: items_def b buckets_8_def item_matches_def key_matches_def k ho_connection_def
        conncmp_zero_iff test_conn_def)
  have i9: "ht_raw_insert ht8 (test_conn 8) 9 = None"
    unfolding ht_raw_insert_wf [OF wf rc] using nm g by simp
  have "test_pairs 9 = test_pairs 8 @ [(test_conn 8, 9)]"
    by code_simp
  then have "insert_all test_table (test_pairs 9) = None"
    by (simp add: insert_all_snoc a i9)
  then show ?thesis by (simp add: insert_all_outcome_def)
qed

text \<open>
  C3 at the failing input: the reachable table with one item and 16 buckets, rebuilt with
  the hint 32. The new bucket array has 16 slots, not the 32 the hint rounds to: the hint
  is not used.
\<close>

theorem rebuild_ignores_hint:
  "rebuild_outcome table_one 32 =
     Inr (16, 16, 1, [[], [], [], [], [], [], [], [test_item 1], [], [], [], [], [], [], [], []])"
  by code_simp

text \<open>
  C10 at the failing input: the reachable table whose only item lies in the last bucket
  (index 15 of 16), and the call \<^verbatim>\<open>ht_raw_get_next(ht, item, key)\<close> with that item and
  its key. \<^verbatim>\<open>++h\<close> gives 16, the test \<^verbatim>\<open>16 > ht->nbuckets\<close> fails, and the scan reads
  \<^verbatim>\<open>ht->bucket[16]\<close>.
\<close>

theorem get_next_reads_past_last_bucket:
  "ht_raw_insert test_table (test_conn 8) 1 = Some (Inr (0, table_last)) \<and>
   ht_raw_get_next table_last (Some (15, 0)) (Some (test_conn 8)) = Inl OutOfBounds"
proof -
  have "ht_raw_get_next table_last (Some (15, 0)) (Some (test_conn 8)) = Inl OutOfBounds"
    by (simp add: ht_raw_get_next_def table_last_def push_item_def test_table_fields Let_def
        get_next_scan_def bucket_at_def)
  with insert_test_table_8 show ?thesis by simp
qed

section \<open>Inserting a pair that is there\<close>















section \<open>Removing matching items\<close>










section \<open>The hypotheses of the theorems are met\<close>

text \<open>
  The hypothesis on the hash function holds for counter keys too (two counters compare
  equal only when they are the same); it fails for \<^verbatim>\<open>double\<close> keys, as shown further
  down. And \<^verbatim>\<open>hf_zobrist_init\<close> makes a well-formed
  state for every request of at least one column.
\<close>

lemma hash_respects_cmp_uint32: "ho_key ht = ho_uint32 be \<Longrightarrow> hash_respects_cmp ht"
  by (auto simp: hash_respects_cmp_def ho_uint32_def uint32cmp_def split: if_splits)

lemma zobrist_wf_init: "n \<noteq> 0 \<Longrightarrow> zobrist_wf (hf_zobrist_init rnd n)"
proof (cases n rule: init_nbuckets_cases)
  case zero
  assume "n \<noteq> 0"
  with zero show ?thesis by simp
next
  case (pow j)
  then have "\<exists>k \<in> {0..<31}. pow2_loop 0x40000000 n = 2 ^ k"
    by (intro bexI [of _ j]) simp_all
  then show ?thesis
    by (simp add: zobrist_wf_def hf_zobrist_init_def Let_def list_all_iff)
qed

section \<open>Insertion, whatever the hash function\<close>








section \<open>Inserting a pair twice\<close>

text \<open>
  A table keyed by \<^verbatim>\<open>double\<close> objects, hashed by \<^verbatim>\<open>hf_lcg\<close> over the eight bytes
  of the key: \<open>0.0\<close> and \<open>-0.0\<close> compare equal under \<^verbatim>\<open>doublecmp\<close> and hash to
  different buckets, so the hypothesis on the hash function fails there.
\<close>

lemma init_nb_256: "init_nb 256 = 256"
  using init_nb_fixed [of 8] by simp

lemma double_table_fields:
  "ho_key double_table = ho_double False" "ho_yield double_table = ho_uint32 False"
  "hf double_table = hf_lcg True" "nbuckets double_table = 256" "mask double_table = 255"
  "entries double_table = 0" "bucket double_table = replicate 256 []"
  "max_bucket_occupancy_ratio double_table = 1 / 2"
  by (simp_all add: double_table_def init_fields init_nb_256)



lemma hash_minus_zero: "hf_lcg True (ho_double False) 0x8000000000000000 AND 255 = 128"
  by code_simp

lemma hash_plus_zero: "hf_lcg True (ho_double False) 0 AND 255 = 0"
  by code_simp

lemma doublecmp_zeros: "doublecmp 0 0x8000000000000000 = 0"
  by code_simp

lemma double_table_not_rc: "\<not> hash_respects_cmp double_table"
proof
  assume "hash_respects_cmp double_table"
  then have "hf_lcg True (ho_double False) 0 = hf_lcg True (ho_double False) 0x8000000000000000"
    using doublecmp_zeros by (simp add: hash_respects_cmp_def double_table_fields ho_double_def)
  then have "hf_lcg True (ho_double False) 0 AND 255 =
             hf_lcg True (ho_double False) 0x8000000000000000 AND 255"
    by simp
  then show False unfolding hash_plus_zero hash_minus_zero by simp
qed













section \<open>Removal, whatever the hash function\<close>








section \<open>Three items of one key\<close>





section \<open>What removal removes\<close>




end
